theory Spec2Isabelle
  imports Main
begin

section \<open>The wire protocol and the socket\<close>

text \<open>
  The transcription session of \<^verbatim>\<open>src/main/transcription/whisper-local.ts\<close> talks JSON
  frames over one WebSocket of the \<^verbatim>\<open>ws\<close> package. A frame the client writes is
  \<^verbatim>\<open>config\<close>, \<^verbatim>\<open>audio\<close> or \<^verbatim>\<open>stop\<close>; the payload of an audio frame is the chunk (its
  base64 text is a function of the chunk and is not spelled out). What the message
  listener gets is a text that \<^verbatim>\<open>JSON.parse\<close> either rejects (\<open>Malformed\<close>) or
  turns into a message whose \<^verbatim>\<open>type\<close> is one of the four cases of the \<^verbatim>\<open>switch\<close>
  or something else (\<open>Unknown\<close>). The \<^verbatim>\<open>text\<close> and \<^verbatim>\<open>message\<close> fields are strings, or
  absent (\<open>None\<close>).
\<close>

type_synonym bytes = string

datatype client_frame = Config string | Audio bytes | Stop

datatype server_frame =
    Ready
  | Transcript "string option"
  | Done
  | ErrorFrame "string option"
  | Unknown
  | Malformed

text \<open>The \<^verbatim>\<open>readyState\<close> of a \<^verbatim>\<open>ws\<close> socket.\<close>

datatype ready_state = CONNECTING | OPEN | CLOSING | CLOSED

text \<open>What crossed the socket of a session, in order of time.\<close>

datatype io = Sent client_frame | Received server_frame

text \<open>What the service emits to its listeners (it is an \<^verbatim>\<open>EventEmitter\<close>).\<close>

datatype emitted =
    EmitReady
  | EmitTranscript "string option"
  | EmitDone
  | EmitError string
  | EmitDisconnected

datatype promise = Pending | Resolved | Rejected

datatype error =
    WebSocketNotOpen
  | TranscriptionNotStarted
  | TranscriptionNotConnected

section \<open>WhisperLocalService\<close>

text \<open>
  One call of \<^verbatim>\<open>stop()\<close> that went through \<^verbatim>\<open>new Promise\<close>: its 10 s timer, its
  \<^verbatim>\<open>once('done')\<close> listener, and the promise it returned.
\<close>

record stop_call =
  timer :: bool
  listener :: bool
  outcome :: promise

text \<open>
  The fields of the class, and what its closures hold: \<open>sock\<close> is the \<^verbatim>\<open>readyState\<close>
  of the socket that \<^verbatim>\<open>connect()\<close> built (\<open>None\<close> before \<^verbatim>\<open>connect()\<close>), \<open>ws\<close> says
  whether \<^verbatim>\<open>this.ws\<close> still refers to it (\<open>False\<close> is \<^verbatim>\<open>null\<close>), \<open>connectTimer\<close> is the
  5 s timer of \<^verbatim>\<open>connect()\<close>, \<open>connectResult\<close> the promise of \<^verbatim>\<open>connect()\<close> (\<open>None\<close>
  while it is pending), \<open>stops\<close> the calls of \<^verbatim>\<open>stop()\<close> so far. \<open>wire\<close>,
  \<open>emitted\<close> and \<open>warnings\<close> record what the service did: the frames on the socket, the
  events emitted, the number of \<^verbatim>\<open>console.warn\<close> calls. The only caller of the class,
  \<^verbatim>\<open>ipc-handlers.ts\<close>, calls \<^verbatim>\<open>connect()\<close> once on each service, so a service has one
  socket.
\<close>

record service =
  language :: string
  sock :: "ready_state option"
  ws :: bool
  isConnected :: bool
  connectTimer :: bool
  connectResult :: "bool option"
  stops :: "stop_call list"
  wire :: "io list"
  emitted :: "emitted list"
  warnings :: nat

definition new_service :: "string \<Rightarrow> service" where
  "new_service lang =
     \<lparr>language = lang, sock = None, ws = False, isConnected = False,
      connectTimer = False, connectResult = None, stops = [], wire = [],
      emitted = [], warnings = 0\<rparr>"

subsection \<open>The socket's own operations\<close>

text \<open>
  \<^verbatim>\<open>send\<close> of the \<^verbatim>\<open>ws\<close> package throws while the socket is \<open>CONNECTING\<close>, writes the
  frame when it is \<open>OPEN\<close>, and without a callback does nothing once it is \<open>CLOSING\<close>
  or \<open>CLOSED\<close>. \<^verbatim>\<open>close\<close> starts the closing handshake of a socket that is
  \<open>CONNECTING\<close> or \<open>OPEN\<close> and is a no-op otherwise.
\<close>

definition ws_throws :: "service \<Rightarrow> bool" where
  "ws_throws s = (sock s = Some CONNECTING)"

definition ws_put :: "client_frame \<Rightarrow> service \<Rightarrow> service" where
  "ws_put f s = (if sock s = Some OPEN then s\<lparr>wire := wire s @ [Sent f]\<rparr> else s)"

definition ws_close :: "service \<Rightarrow> service" where
  "ws_close s =
     (if sock s = Some CONNECTING \<or> sock s = Some OPEN then s\<lparr>sock := Some CLOSING\<rparr>
      else s)"

subsection \<open>The methods\<close>

text \<open>
  \<^verbatim>\<open>emit\<close> records the event. The listeners for \<^verbatim>\<open>transcript\<close>, \<^verbatim>\<open>error\<close> and
  \<^verbatim>\<open>ready\<close> are those of \<^verbatim>\<open>ipc-handlers.ts\<close>, registered before \<^verbatim>\<open>connect()\<close>; they
  forward to the renderer and change nothing here.
\<close>

definition emit :: "emitted \<Rightarrow> service \<Rightarrow> service" where
  "emit e s = s\<lparr>emitted := emitted s @ [e]\<rparr>"

text \<open>Calling \<^verbatim>\<open>resolve\<close> on a promise that is settled does nothing.\<close>

definition resolve_connect :: "bool \<Rightarrow> service \<Rightarrow> service" where
  "resolve_connect b s =
     (case connectResult s of None \<Rightarrow> s\<lparr>connectResult := Some b\<rparr> | Some _ \<Rightarrow> s)"

fun settle :: "promise \<Rightarrow> promise" where
  "settle Pending = Resolved"
| "settle p = p"

definition disconnect :: "service \<Rightarrow> service" where
  "disconnect s =
     (let s1 = (if ws s then (ws_close s)\<lparr>ws := False\<rparr> else s)
      in s1\<lparr>isConnected := False\<rparr>)"

text \<open>
  \<^verbatim>\<open>connect()\<close>: the socket is built, the listeners are registered and the 5 s timer is
  set; the promise stays pending. The URL is the constant of \<^verbatim>\<open>DEFAULT_CONFIG\<close>, so
  \<^verbatim>\<open>new WebSocket\<close> does not throw. The counter \<^verbatim>\<open>reconnectAttempts\<close> is written and
  never read, and the \<^verbatim>\<open>ping\<close> and \<^verbatim>\<open>pong\<close> listeners touch no field; they are left
  out.
\<close>

definition connect :: "service \<Rightarrow> service" where
  "connect s = s\<lparr>sock := Some CONNECTING, ws := True, connectTimer := True\<rparr>"

definition sendAudio :: "bytes \<Rightarrow> service \<Rightarrow> error + service" where
  "sendAudio audioData s =
     (if \<not> isConnected s \<or> \<not> ws s then Inr (s\<lparr>warnings := Suc (warnings s)\<rparr>)
      else if ws_throws s then Inl WebSocketNotOpen
      else Inr (ws_put (Audio audioData) s))"

text \<open>
  \<^verbatim>\<open>stop()\<close> up to the point where it returns its promise. A throw inside the executor
  of \<^verbatim>\<open>new Promise\<close> rejects the promise.
\<close>

definition settled_call :: "promise \<Rightarrow> stop_call" where
  "settled_call p = \<lparr>timer = False, listener = False, outcome = p\<rparr>"

definition waiting_call :: stop_call where
  "waiting_call = \<lparr>timer = True, listener = True, outcome = Pending\<rparr>"

definition stop :: "service \<Rightarrow> service" where
  "stop s =
     (if \<not> ws s then s\<lparr>stops := stops s @ [settled_call Resolved]\<rparr>
      else if isConnected s then
        (if ws_throws s then s\<lparr>stops := stops s @ [settled_call Rejected]\<rparr>
         else (ws_put Stop s)\<lparr>stops := stops s @ [waiting_call]\<rparr>)
      else (disconnect s)\<lparr>stops := stops s @ [settled_call Resolved]\<rparr>)"

subsection \<open>The listeners and the timers\<close>

definition on_open :: "service \<Rightarrow> service" where
  "on_open s =
     (let s1 = s\<lparr>isConnected := True\<rparr>
      in if ws s1 then ws_put (Config (language s1)) s1 else s1)"

text \<open>
  The \<^verbatim>\<open>once('done')\<close> listener of a \<^verbatim>\<open>stop()\<close> call clears the call's timer,
  disconnects and resolves the call's promise; \<^verbatim>\<open>emit('done')\<close> runs every listener
  that is registered and removes it.
\<close>

definition fire_done :: "stop_call \<Rightarrow> stop_call" where
  "fire_done c =
     (if listener c then \<lparr>timer = False, listener = False, outcome = settle (outcome c)\<rparr>
      else c)"

definition emit_done :: "service \<Rightarrow> service" where
  "emit_done s =
     (let s1 = emit EmitDone s
      in if list_ex listener (stops s1)
         then (disconnect s1)\<lparr>stops := map fire_done (stops s1)\<rparr>
         else s1)"

definition error_message :: "string option \<Rightarrow> string" where
  "error_message m = (case m of Some t \<Rightarrow> t | None \<Rightarrow> [])"

fun on_message :: "server_frame \<Rightarrow> service \<Rightarrow> service" where
  "on_message Ready s = resolve_connect True (emit EmitReady s)"
| "on_message (Transcript t) s = emit (EmitTranscript t) s"
| "on_message Done s = emit_done s"
| "on_message (ErrorFrame m) s = emit (EmitError (error_message m)) s"
| "on_message Unknown s = s"
| "on_message Malformed s = s"

definition on_error :: "string \<Rightarrow> service \<Rightarrow> service" where
  "on_error err s =
     (let s1 = emit (EmitError err) s
      in if \<not> isConnected s1 then resolve_connect False s1 else s1)"

definition on_close :: "service \<Rightarrow> service" where
  "on_close s = emit EmitDisconnected (s\<lparr>isConnected := False\<rparr>)"

definition connect_timeout :: "service \<Rightarrow> service" where
  "connect_timeout s =
     (if \<not> isConnected s
      then resolve_connect False (if ws s then ws_close s else s)
      else s)"

definition stop_timeout :: "nat \<Rightarrow> service \<Rightarrow> service" where
  "stop_timeout k s =
     (let c = stops s ! k
      in (disconnect s)\<lparr>stops := (stops s)[k := c\<lparr>timer := False, outcome := settle (outcome c)\<rparr>]\<rparr>)"

subsection \<open>One turn of the event loop\<close>

text \<open>
  What the environment can do to a service: the socket emits \<^verbatim>\<open>open\<close> (only while
  \<open>CONNECTING\<close>), a message (while \<open>OPEN\<close> or \<open>CLOSING\<close>), \<^verbatim>\<open>error\<close> or \<^verbatim>\<open>close\<close>
  (until it is \<open>CLOSED\<close>), and a timer that is set fires. \<open>WsClosing\<close> is the
  socket going from \<open>OPEN\<close> to \<open>CLOSING\<close> on its own, when the close frame of the
  server or a network error arrives: no listener of the service runs then, the
  \<^verbatim>\<open>close\<close> event follows later. An event that cannot
  happen in a state leaves it as it is. Each listener runs to completion. Time is
  not measured: the 5 s and 10 s timers are events that fire at some point after
  they were set.
\<close>

datatype event =
    WsOpen
  | WsMessage server_frame
  | WsError string
  | WsClosing
  | WsClose
  | ConnectTimeout
  | StopTimeout nat

definition alive :: "service \<Rightarrow> bool" where
  "alive s = (sock s = Some CONNECTING \<or> sock s = Some OPEN \<or> sock s = Some CLOSING)"

fun step :: "event \<Rightarrow> service \<Rightarrow> service" where
  "step WsOpen s =
     (if sock s = Some CONNECTING then on_open (s\<lparr>sock := Some OPEN\<rparr>) else s)"
| "step (WsMessage f) s =
     (if sock s = Some OPEN \<or> sock s = Some CLOSING
      then on_message f (s\<lparr>wire := wire s @ [Received f]\<rparr>) else s)"
| "step (WsError err) s = (if alive s then on_error err s else s)"
| "step WsClosing s = (if sock s = Some OPEN then s\<lparr>sock := Some CLOSING\<rparr> else s)"
| "step WsClose s = (if alive s then on_close (s\<lparr>sock := Some CLOSED\<rparr>) else s)"
| "step ConnectTimeout s =
     (if connectTimer s then connect_timeout (s\<lparr>connectTimer := False\<rparr>) else s)"
| "step (StopTimeout k) s =
     (if k < length (stops s) \<and> timer (stops s ! k) then stop_timeout k s else s)"

text \<open>
  A caller of the class may also call its three methods between two events. A
  \<^verbatim>\<open>sendAudio\<close> that throws leaves the service as it was.
\<close>

datatype action = Env event | CallSendAudio bytes | CallStop | CallDisconnect

fun act :: "service \<Rightarrow> action \<Rightarrow> service" where
  "act s (Env e) = step e s"
| "act s (CallSendAudio d) = (case sendAudio d s of Inr s' \<Rightarrow> s' | Inl _ \<Rightarrow> s)"
| "act s CallStop = stop s"
| "act s CallDisconnect = disconnect s"

definition run :: "action list \<Rightarrow> service \<Rightarrow> service" where
  "run as s = foldl act s as"

text \<open>A session: a service on which \<^verbatim>\<open>connect()\<close> was called, and what happened since.\<close>

definition session :: "string \<Rightarrow> action list \<Rightarrow> service" where
  "session lang as = run as (connect (new_service lang))"

section \<open>The IPC handlers of the main process\<close>

text \<open>
  \<^verbatim>\<open>src/main/ipc-handlers.ts\<close> keeps the current service in the module variable
  \<^verbatim>\<open>whisperService\<close>. A service is an object: here it is an index into \<open>services\<close>,
  the list of all services built so far. The handlers \<^verbatim>\<open>transcription:start\<close> and
  \<^verbatim>\<open>transcription:stop\<close> are \<^verbatim>\<open>async\<close> and suspend at an \<^verbatim>\<open>await\<close>; \<open>handlers\<close>
  holds every invocation, suspended or finished, in order of arrival.
\<close>

datatype handler =
    StartAwaitsStop nat nat string
  | StartAwaitsConnect nat
  | StopAwaitsStop nat nat
  | Returned "bool option"
  | Threw error

record main_process =
  whisperService :: "nat option"
  services :: "service list"
  handlers :: "handler list"

definition main_process0 :: main_process where
  "main_process0 = \<lparr>whisperService = None, services = [], handlers = []\<rparr>"

text \<open>
  \<^verbatim>\<open>transcription:start\<close>, up to its first \<^verbatim>\<open>await\<close>: of \<^verbatim>\<open>whisperService.stop()\<close>
  (\<open>StartAwaitsStop\<close>: the service, the index of the \<^verbatim>\<open>stop()\<close> call, the language)
  when there is a current service, of \<^verbatim>\<open>service.connect()\<close> of a new service
  otherwise.
\<close>

definition transcription_start :: "string \<Rightarrow> main_process \<Rightarrow> main_process" where
  "transcription_start lang m =
     (case whisperService m of
        Some i \<Rightarrow>
          m\<lparr>services := (services m)[i := stop (services m ! i)],
            handlers := handlers m @ [StartAwaitsStop i (length (stops (services m ! i))) lang]\<rparr>
      | None \<Rightarrow>
          m\<lparr>services := services m @ [connect (new_service lang)],
            handlers := handlers m @ [StartAwaitsConnect (length (services m))]\<rparr>)"

definition transcription_send_audio :: "bytes \<Rightarrow> main_process \<Rightarrow> main_process" where
  "transcription_send_audio audioData m =
     (case whisperService m of
        None \<Rightarrow> m\<lparr>handlers := handlers m @ [Threw TranscriptionNotStarted]\<rparr>
      | Some i \<Rightarrow>
          if \<not> isConnected (services m ! i)
          then m\<lparr>handlers := handlers m @ [Threw TranscriptionNotConnected]\<rparr>
          else (case sendAudio audioData (services m ! i) of
                  Inl e \<Rightarrow> m\<lparr>handlers := handlers m @ [Threw e]\<rparr>
                | Inr s' \<Rightarrow>
                    m\<lparr>services := (services m)[i := s'],
                      handlers := handlers m @ [Returned None]\<rparr>))"

definition transcription_stop :: "main_process \<Rightarrow> main_process" where
  "transcription_stop m =
     (case whisperService m of
        Some i \<Rightarrow>
          m\<lparr>services := (services m)[i := stop (services m ! i)],
            handlers := handlers m @ [StopAwaitsStop i (length (stops (services m ! i)))]\<rparr>
      | None \<Rightarrow> m\<lparr>handlers := handlers m @ [Returned None]\<rparr>)"

text \<open>
  The rest of a suspended handler, run once the promise it awaits is settled (while
  the promise is pending, nothing happens). After \<^verbatim>\<open>await whisperService.stop()\<close>,
  \<^verbatim>\<open>transcription:start\<close> clears \<^verbatim>\<open>whisperService\<close>, builds the new service and
  awaits its \<^verbatim>\<open>connect()\<close>; after that it either registers the service and returns
  \<^verbatim>\<open>true\<close>, or disconnects it, clears \<^verbatim>\<open>whisperService\<close> and returns \<^verbatim>\<open>false\<close>.
\<close>

definition resume :: "nat \<Rightarrow> main_process \<Rightarrow> main_process" where
  "resume c m =
     (case handlers m ! c of
        StartAwaitsStop i k lang \<Rightarrow>
          (case outcome (stops (services m ! i) ! k) of
             Pending \<Rightarrow> m
           | Resolved \<Rightarrow>
               m\<lparr>whisperService := None,
                 services := services m @ [connect (new_service lang)],
                 handlers := (handlers m)[c := StartAwaitsConnect (length (services m))]\<rparr>
           | Rejected \<Rightarrow> m\<lparr>handlers := (handlers m)[c := Threw WebSocketNotOpen]\<rparr>)
      | StartAwaitsConnect j \<Rightarrow>
          (case connectResult (services m ! j) of
             None \<Rightarrow> m
           | Some connected \<Rightarrow>
               if connected
               then m\<lparr>whisperService := Some j,
                      handlers := (handlers m)[c := Returned (Some True)]\<rparr>
               else m\<lparr>whisperService := None,
                      services := (services m)[j := disconnect (services m ! j)],
                      handlers := (handlers m)[c := Returned (Some False)]\<rparr>)
      | StopAwaitsStop i k \<Rightarrow>
          (case outcome (stops (services m ! i) ! k) of
             Pending \<Rightarrow> m
           | Resolved \<Rightarrow>
               m\<lparr>whisperService := None, handlers := (handlers m)[c := Returned None]\<rparr>
           | Rejected \<Rightarrow> m\<lparr>handlers := (handlers m)[c := Threw WebSocketNotOpen]\<rparr>)
      | Returned r \<Rightarrow> m
      | Threw e \<Rightarrow> m)"

text \<open>
  One turn of the main process: the renderer invokes a handler, a suspended handler
  goes on, or the socket or a timer of one of the services fires.
\<close>

datatype ipc_event =
    TranscriptionStart string
  | TranscriptionSendAudio bytes
  | TranscriptionStop
  | Resume nat
  | Socket nat event

fun ipc_step :: "main_process \<Rightarrow> ipc_event \<Rightarrow> main_process" where
  "ipc_step m (TranscriptionStart lang) = transcription_start lang m"
| "ipc_step m (TranscriptionSendAudio d) = transcription_send_audio d m"
| "ipc_step m TranscriptionStop = transcription_stop m"
| "ipc_step m (Resume c) = (if c < length (handlers m) then resume c m else m)"
| "ipc_step m (Socket i e) =
     (if i < length (services m)
      then m\<lparr>services := (services m)[i := step e (services m ! i)]\<rparr> else m)"

definition ipc_run :: "ipc_event list \<Rightarrow> main_process" where
  "ipc_run es = foldl ipc_step main_process0 es"

text \<open>
  The listeners that \<^verbatim>\<open>transcription:start\<close> registers on every service forward
  \<^verbatim>\<open>transcript\<close>, \<^verbatim>\<open>error\<close> and \<^verbatim>\<open>ready\<close> to the renderer.
\<close>

datatype renderer_msg =
    TranscriptionResult "string option"
  | TranscriptionError string
  | TranscriptionReady

fun forward :: "emitted \<Rightarrow> renderer_msg list" where
  "forward EmitReady = [TranscriptionReady]"
| "forward (EmitTranscript t) = [TranscriptionResult t]"
| "forward (EmitError e) = [TranscriptionError e]"
| "forward EmitDone = []"
| "forward EmitDisconnected = []"

definition to_renderer :: "service \<Rightarrow> renderer_msg list" where
  "to_renderer s = concat (map forward (emitted s))"

section \<open>The meeting page of the renderer\<close>

text \<open>
  \<^verbatim>\<open>src/renderer/main.tsx\<close>: the state \<^verbatim>\<open>transcript\<close> that the page shows and the ref
  \<^verbatim>\<open>transcriptRef\<close> that it saves, and the listener of \<^verbatim>\<open>onTranscriptionResult\<close>. A
  text is truthy when it is present and not empty.
\<close>

record page =
  transcript :: string
  transcriptRef :: string

definition page0 :: page where
  "page0 = \<lparr>transcript = [], transcriptRef = []\<rparr>"

definition onTranscriptionResult :: "page \<Rightarrow> string option \<Rightarrow> page" where
  "onTranscriptionResult p text =
     (case text of
        None \<Rightarrow> p
      | Some t \<Rightarrow> if t \<noteq> [] then p\<lparr>transcript := t, transcriptRef := t\<rparr> else p)"

fun on_renderer_msg :: "page \<Rightarrow> renderer_msg \<Rightarrow> page" where
  "on_renderer_msg p (TranscriptionResult t) = onTranscriptionResult p t"
| "on_renderer_msg p (TranscriptionError e) = p"
| "on_renderer_msg p TranscriptionReady = p"

definition displayed :: "renderer_msg list \<Rightarrow> string" where
  "displayed ms = transcript (foldl on_renderer_msg page0 ms)"

section \<open>Properties of states and traces\<close>

text \<open>
  A \<^verbatim>\<open>stop()\<close> call is in order when its promise was not rejected and its timer is
  set exactly as long as the promise is pending, the listener being registered at
  least as long as the timer is set.
\<close>

definition call_ok :: "stop_call \<Rightarrow> bool" where
  "call_ok c =
     (outcome c \<noteq> Rejected \<and> (timer c \<longrightarrow> listener c) \<and> (timer c \<longleftrightarrow> outcome c = Pending))"

text \<open>
  What holds of a service at every moment: \<^verbatim>\<open>isConnected\<close> is true only while the
  socket is open or closing, \<^verbatim>\<open>this.ws\<close> is null only after \<^verbatim>\<open>disconnect()\<close>, and a \<^verbatim>\<open>stop()\<close> call has resolved only after \<^verbatim>\<open>disconnect()\<close>.
\<close>

definition service_inv :: "service \<Rightarrow> bool" where
  "service_inv s =
     ((isConnected s \<longrightarrow> sock s = Some OPEN \<or> sock s = Some CLOSING) \<and>
      (\<not> ws s \<longrightarrow> \<not> isConnected s \<and> sock s \<noteq> Some CONNECTING \<and> sock s \<noteq> Some OPEN) \<and>
      sock s \<noteq> None \<and>
      (list_ex (\<lambda>c. outcome c = Resolved) (stops s) \<longrightarrow> \<not> ws s) \<and>
      list_all call_ok (stops s))"

text \<open>
  A session is torn down when \<^verbatim>\<open>this.ws\<close> is null, \<^verbatim>\<open>isConnected\<close> is false and
  \<^verbatim>\<open>close()\<close> was called on its socket.
\<close>

definition torn_down :: "service \<Rightarrow> bool" where
  "torn_down s =
     (\<not> ws s \<and> \<not> isConnected s \<and> (sock s = Some CLOSING \<or> sock s = Some CLOSED))"

fun is_audio :: "io \<Rightarrow> bool" where
  "is_audio (Sent (Audio d)) = True"
| "is_audio x = False"

text \<open>In a record of a socket, no audio frame was written before \<^verbatim>\<open>ready\<close> came in.\<close>

fun no_audio_before_ready :: "io list \<Rightarrow> bool" where
  "no_audio_before_ready [] = True"
| "no_audio_before_ready (Received Ready # xs) = True"
| "no_audio_before_ready (Sent (Audio d) # xs) = False"
| "no_audio_before_ready (x # xs) = no_audio_before_ready xs"

definition service_ok :: "service \<Rightarrow> bool" where
  "service_ok s =
     (service_inv s \<and> no_audio_before_ready (wire s) \<and>
      (connectResult s = Some True \<longrightarrow> Received Ready \<in> set (wire s)))"

fun handler_ok :: "service list \<Rightarrow> handler \<Rightarrow> bool" where
  "handler_ok ss (StartAwaitsStop i k lang) = (i < length ss \<and> k < length (stops (ss ! i)))"
| "handler_ok ss (StartAwaitsConnect j) = (j < length ss)"
| "handler_ok ss (StopAwaitsStop i k) = (i < length ss \<and> k < length (stops (ss ! i)))"
| "handler_ok ss (Returned r) = True"
| "handler_ok ss (Threw e) = True"

definition main_inv :: "main_process \<Rightarrow> bool" where
  "main_inv m =
     ((case whisperService m of
         None \<Rightarrow> True
       | Some i \<Rightarrow> i < length (services m) \<and> Received Ready \<in> set (wire (services m ! i))) \<and>
      list_all service_ok (services m) \<and>
      list_all (handler_ok (services m)) (handlers m))"

text \<open>A text is truthy in JavaScript when it is present and not the empty string.\<close>

fun truthy :: "string option \<Rightarrow> bool" where
  "truthy None = False"
| "truthy (Some t) = (t \<noteq> [])"

definition text_of :: "string option \<Rightarrow> string" where
  "text_of t = (case t of None \<Rightarrow> [] | Some x \<Rightarrow> x)"

definition transcript_frames :: "string option list \<Rightarrow> action list" where
  "transcript_frames ts = map (\<lambda>t. Env (WsMessage (Transcript t))) ts"

text \<open>
  How far a \<^verbatim>\<open>transcription:start\<close> that found the session \<open>i\<close> registered has got:
  it awaits the \<^verbatim>\<open>stop()\<close> of that session, or the session is torn down and the call
  awaits the \<^verbatim>\<open>connect()\<close> of a service that is not among the first \<open>n\<close>, or has
  returned \<^verbatim>\<open>true\<close> or \<^verbatim>\<open>false\<close>.
\<close>

definition start_progress :: "nat \<Rightarrow> nat \<Rightarrow> string \<Rightarrow> nat \<Rightarrow> main_process \<Rightarrow> bool" where
  "start_progress c i lang n m =
     (case handlers m ! c of
        StartAwaitsStop i' k l \<Rightarrow> i' = i \<and> l = lang
      | StartAwaitsConnect j \<Rightarrow> n \<le> j \<and> torn_down (services m ! i)
      | StopAwaitsStop i' k \<Rightarrow> False
      | Returned r \<Rightarrow> r \<noteq> None \<and> torn_down (services m ! i)
      | Threw e \<Rightarrow> False)"

text \<open>
  A \<^verbatim>\<open>transcription:start\<close> whose \<^verbatim>\<open>connect()\<close> was settled to \<^verbatim>\<open>false\<close>: the handler is
  still suspended at the \<^verbatim>\<open>await\<close>, or it has returned \<^verbatim>\<open>false\<close> and the session is torn
  down.
\<close>

definition connect_failed :: "nat \<Rightarrow> nat \<Rightarrow> main_process \<Rightarrow> bool" where
  "connect_failed c j m =
     (connectResult (services m ! j) = Some False \<and>
      (handlers m ! c = StartAwaitsConnect j \<or>
       handlers m ! c = Returned (Some False) \<and> torn_down (services m ! j)))"

section \<open>What every step preserves\<close>

lemmas svc_defs = ws_throws_def ws_put_def ws_close_def emit_def resolve_connect_def disconnect_def
  connect_def sendAudio_def stop_def on_open_def emit_done_def on_error_def on_close_def
  connect_timeout_def stop_timeout_def settled_call_def waiting_call_def alive_def

lemma settle_cases: "settle p = (if p = Pending then Resolved else p)"
  by (cases p) auto

lemma call_ok_fire_done: "call_ok c \<Longrightarrow> call_ok (fire_done c)"
  by (auto simp: call_ok_def fire_done_def settle_cases)

lemma inv_connect: "service_inv (connect (new_service l))"
  by (simp add: service_inv_def connect_def new_service_def)

lemma inv_disconnect: "service_inv s \<Longrightarrow> service_inv (disconnect s)"
  by (auto simp: service_inv_def disconnect_def ws_close_def Let_def)

lemma inv_stop: "service_inv s \<Longrightarrow> service_inv (stop s)"
  by (auto simp: service_inv_def svc_defs Let_def call_ok_def)

lemma inv_sendAudio: "service_inv s \<Longrightarrow> sendAudio d s = Inr s' \<Longrightarrow> service_inv s'"
  by (auto simp: service_inv_def svc_defs Let_def split: if_splits)

lemma inv_emit_done: "service_inv s \<Longrightarrow> service_inv (emit_done s)"
proof -
  assume a: "service_inv s"
  have "list_all call_ok (map fire_done (stops s))"
    using a by (auto simp: service_inv_def list_all_iff call_ok_fire_done)
  moreover have "list_ex (\<lambda>c. outcome c = Resolved) (map fire_done (stops s)) \<Longrightarrow> \<not> list_ex listener (stops s) \<Longrightarrow> \<not> ws s"
    using a by (auto simp: service_inv_def list_ex_iff fire_done_def)
  ultimately show ?thesis using a
    by (auto simp: service_inv_def emit_done_def emit_def disconnect_def ws_close_def Let_def)
qed

lemma inv_on_message: "service_inv s \<Longrightarrow> service_inv (on_message f s)"
proof (cases f)
  case Done
  assume "service_inv s" then show ?thesis using Done by (simp add: inv_emit_done)
qed (auto simp: service_inv_def emit_def resolve_connect_def split: option.splits)

lemma inv_stop_timeout: "service_inv s \<Longrightarrow> k < length (stops s) \<Longrightarrow> timer (stops s ! k) \<Longrightarrow> service_inv (stop_timeout k s)"
  by (auto simp: service_inv_def svc_defs Let_def list_all_iff list_ex_iff settle_cases call_ok_def dest!: set_update_subset_insert[THEN subsetD])

lemma inv_step: "service_inv s \<Longrightarrow> service_inv (step e s)"
proof (cases e)
  case WsOpen
  assume "service_inv s" then show ?thesis using WsOpen by (auto simp: service_inv_def svc_defs Let_def)
next
  case (WsMessage f)
  assume "service_inv s"
  then have "service_inv (s\<lparr>wire := wire s @ [Received f]\<rparr>)" by (simp add: service_inv_def)
  then show ?thesis using WsMessage \<open>service_inv s\<close> by (auto intro: inv_on_message)
next
  case (WsError x)
  assume "service_inv s" then show ?thesis using WsError by (auto simp: service_inv_def svc_defs Let_def split: option.splits)
next
  case WsClosing
  assume "service_inv s" then show ?thesis using WsClosing by (auto simp: service_inv_def)
next
  case WsClose
  assume "service_inv s" then show ?thesis using WsClose by (auto simp: service_inv_def svc_defs Let_def)
next
  case ConnectTimeout
  assume "service_inv s" then show ?thesis using ConnectTimeout by (auto simp: service_inv_def svc_defs Let_def split: option.splits)
next
  case (StopTimeout k)
  assume "service_inv s" then show ?thesis using StopTimeout by (auto intro: inv_stop_timeout)
qed

lemma inv_act: "service_inv s \<Longrightarrow> service_inv (act s a)"
  by (cases a) (auto simp: inv_step inv_stop inv_disconnect inv_sendAudio split: sum.splits)

lemma inv_run: "service_inv s \<Longrightarrow> service_inv (run as s)"
  unfolding run_def by (induction as arbitrary: s) (auto simp: inv_act)

lemma inv_session: "service_inv (session l as)"
  unfolding session_def by (rule inv_run[OF inv_connect])

lemma inv_torn_down: "service_inv s \<Longrightarrow> \<not> ws s \<Longrightarrow> torn_down s"
  apply (auto simp: service_inv_def torn_down_def)
  by (metis ready_state.exhaust)

lemma wire_step: "\<exists>xs. wire (step e s) = wire s @ xs \<and> \<not> list_ex is_audio xs \<and>
    (Received Done \<in> set xs \<longleftrightarrow> e = WsMessage Done \<and> (sock s = Some OPEN \<or> sock s = Some CLOSING))"
proof (cases e)
  case (WsMessage f)
  then show ?thesis by (cases f) (auto simp: svc_defs Let_def split: option.splits)
qed (auto simp: svc_defs Let_def split: option.splits)

lemma wire_disconnect [simp]: "wire (disconnect s) = wire s"
  by (auto simp: svc_defs Let_def)

lemma wire_stop: "\<exists>xs. wire (stop s) = wire s @ xs \<and> \<not> list_ex is_audio xs \<and> Received Done \<notin> set xs"
  by (auto simp: svc_defs Let_def)

lemma length_stops_step [simp]: "length (stops (step e s)) = length (stops s)"
proof (cases e)
  case (WsMessage f)
  then show ?thesis by (cases f) (auto simp: svc_defs Let_def split: option.splits)
qed (auto simp: svc_defs Let_def split: option.splits)

lemma ws_step: "\<not> ws s \<Longrightarrow> \<not> ws (step e s)"
proof (cases e)
  case (WsMessage f)
  assume "\<not> ws s"
  then show ?thesis using WsMessage by (cases f) (auto simp: svc_defs Let_def split: option.splits)
qed (auto simp: svc_defs Let_def split: option.splits)

lemma ws_act: "\<not> ws s \<Longrightarrow> \<not> ws (act s a)"
  by (cases a) (auto simp: ws_step svc_defs Let_def)

lemma ws_run: "\<not> ws s \<Longrightarrow> \<not> ws (run as s)"
  unfolding run_def by (induction as arbitrary: s) (auto simp: ws_act)

lemmas session_simps = session_def run_def connect_def new_service_def svc_defs fire_done_def
  to_renderer_def displayed_def page0_def onTranscriptionResult_def Let_def

lemmas ipc_simps = ipc_run_def main_process0_def transcription_start_def
  transcription_stop_def transcription_send_audio_def resume_def

lemma ready_count_step:
  "count_list (emitted s) EmitReady = count_list (wire s) (Received Ready) \<Longrightarrow>
   count_list (emitted (step e s)) EmitReady = count_list (wire (step e s)) (Received Ready)"
proof (cases e)
  case (WsMessage f)
  assume "count_list (emitted s) EmitReady = count_list (wire s) (Received Ready)"
  then show ?thesis using WsMessage
    by (cases f) (auto simp: svc_defs Let_def split: option.splits)
qed (auto simp: svc_defs Let_def split: option.splits)

lemma ready_count_act:
  "count_list (emitted s) EmitReady = count_list (wire s) (Received Ready) \<Longrightarrow>
   count_list (emitted (act s a)) EmitReady = count_list (wire (act s a)) (Received Ready)"
  by (cases a) (auto simp: ready_count_step svc_defs Let_def)

lemma ready_count_run:
  "count_list (emitted s) EmitReady = count_list (wire s) (Received Ready) \<Longrightarrow>
   count_list (emitted (run as s)) EmitReady = count_list (wire (run as s)) (Received Ready)"
  unfolding run_def by (induction as arbitrary: s) (auto simp: ready_count_act)

lemma run_snoc: "run (as @ [a]) s = act (run as s) a"
  by (simp add: run_def)

lemma transcripts_run:
  "sock s = Some OPEN \<or> sock s = Some CLOSING \<Longrightarrow>
   run (transcript_frames ts) s =
     s\<lparr>wire := wire s @ map (\<lambda>t. Received (Transcript t)) ts,
       emitted := emitted s @ map EmitTranscript ts\<rparr>"
proof (induction ts rule: rev_induct)
  case Nil
  then show ?case by (simp add: run_def transcript_frames_def)
next
  case (snoc t ts)
  have "run (transcript_frames (ts @ [t])) s = act (run (transcript_frames ts) s) (Env (WsMessage (Transcript t)))"
    by (simp add: transcript_frames_def run_snoc)
  then show ?case using snoc by (auto simp: emit_def)
qed

lemma page_fold:
  "transcript (foldl on_renderer_msg p (map TranscriptionResult ts)) =
     (case rev (filter truthy ts) of [] \<Rightarrow> transcript p | t # x \<Rightarrow> text_of t)"
proof (induction ts rule: rev_induct)
  case Nil
  then show ?case by simp
next
  case (snoc t ts)
  then show ?case by (cases t) (auto simp: onTranscriptionResult_def text_of_def)
qed

lemma audio_act: "\<not> ws s \<Longrightarrow> filter is_audio (wire (act s a)) = filter is_audio (wire s)"
proof (cases a)
  case (Env e)
  obtain xs where "wire (step e s) = wire s @ xs" "\<not> list_ex is_audio xs"
    using wire_step[of e s] by blast
  then show ?thesis using Env by (simp add: list_ex_iff)
next
  case (CallSendAudio d)
  assume "\<not> ws s" then show ?thesis using CallSendAudio by (simp add: sendAudio_def)
next
  case CallStop
  assume "\<not> ws s" then show ?thesis using CallStop by (simp add: stop_def)
next
  case CallDisconnect
  then show ?thesis by simp
qed

lemma audio_run: "\<not> ws s \<Longrightarrow> filter is_audio (wire (run as s)) = filter is_audio (wire s)"
proof (induction as rule: rev_induct)
  case Nil
  then show ?case by (simp add: run_def)
next
  case (snoc a as)
  then show ?case using audio_act[OF ws_run[OF snoc.prems, of as], of a] by (simp add: run_snoc)
qed

lemma resolved_no_ws: "service_inv s \<Longrightarrow> k < length (stops s) \<Longrightarrow> outcome (stops s ! k) = Resolved \<Longrightarrow> \<not> ws s"
  by (auto simp: service_inv_def list_ex_iff)

lemma stop_connected:
  "service_inv s \<Longrightarrow> isConnected s \<Longrightarrow> ws s \<Longrightarrow>
   stop s = (ws_put Stop s)\<lparr>stops := stops s @ [waiting_call]\<rparr>"
  by (auto simp: stop_def ws_throws_def service_inv_def)

lemma length_stops_act: "k < length (stops s) \<Longrightarrow> k < length (stops (act s a))"
  by (cases a) (auto simp: svc_defs Let_def)

lemma nth_call_ok: "service_inv s \<Longrightarrow> k < length (stops s) \<Longrightarrow> call_ok (stops s ! k)"
  by (simp add: service_inv_def list_all_length)

lemma pending_step:
  assumes "k < length (stops s)" and "outcome (stops s ! k) = Pending"
    and "timer (stops s ! k)" and "listener (stops s ! k)"
  shows "outcome (stops (step e s) ! k) = Resolved \<longleftrightarrow>
           e = StopTimeout k \<or> e = WsMessage Done \<and> (sock s = Some OPEN \<or> sock s = Some CLOSING)"
proof (cases e)
  case (WsMessage f)
  have "list_ex listener (stops s)" using assms(1,4) by (auto simp: list_ex_iff)
  then show ?thesis using WsMessage assms
    by (cases f) (auto simp: svc_defs fire_done_def Let_def split: option.splits)
next
  case (StopTimeout j)
  then show ?thesis using assms by (cases "j = k") (auto simp: svc_defs Let_def)
qed (use assms in \<open>auto simp: svc_defs Let_def split: option.splits\<close>)

lemma pending_act:
  assumes "service_inv s" and "k < length (stops s)" and "outcome (stops s ! k) = Pending"
  shows "outcome (stops (act s a) ! k) = Resolved \<longleftrightarrow>
           a = Env (StopTimeout k) \<or>
           a = Env (WsMessage Done) \<and> (sock s = Some OPEN \<or> sock s = Some CLOSING)"
proof -
  have "call_ok (stops s ! k)" using assms(1,2) by (rule nth_call_ok)
  then have t: "timer (stops s ! k)" "listener (stops s ! k)"
    using assms(3) by (auto simp: call_ok_def)
  show ?thesis
  proof (cases a)
    case (Env e)
    then show ?thesis using pending_step[OF assms(2,3) t, of e] by simp
  next
    case (CallSendAudio d)
    then show ?thesis using assms by (auto simp: svc_defs Let_def)
  next
    case CallStop
    then show ?thesis using assms by (auto simp: svc_defs Let_def nth_append)
  next
    case CallDisconnect
    then show ?thesis using assms by (auto simp: svc_defs Let_def)
  qed
qed

lemma resolved_step:
  assumes "k < length (stops s)" and "outcome (stops s ! k) = Resolved"
  shows "outcome (stops (step e s) ! k) = Resolved"
proof (cases e)
  case (WsMessage f)
  then show ?thesis using assms
    by (cases f) (auto simp: svc_defs fire_done_def Let_def split: option.splits)
next
  case (StopTimeout j)
  then show ?thesis using assms by (cases "j = k") (auto simp: svc_defs Let_def)
qed (use assms in \<open>auto simp: svc_defs Let_def split: option.splits\<close>)

lemma resolved_act:
  assumes "k < length (stops s)" and "outcome (stops s ! k) = Resolved"
  shows "outcome (stops (act s a) ! k) = Resolved"
proof (cases a)
  case (Env e)
  then show ?thesis using resolved_step[OF assms] by simp
qed (use assms in \<open>auto simp: svc_defs Let_def nth_append\<close>)

lemma wire_act:
  "\<exists>xs. wire (act s a) = wire s @ xs \<and>
     (Received Done \<in> set xs \<longleftrightarrow>
        a = Env (WsMessage Done) \<and> (sock s = Some OPEN \<or> sock s = Some CLOSING))"
proof (cases a)
  case (Env e)
  then show ?thesis using wire_step[of e s] by auto
next
  case CallStop
  then show ?thesis using wire_stop[of s] by auto
qed (auto simp: svc_defs Let_def)

lemma stop_trace:
  assumes "service_inv s" and "isConnected s" and "ws s"
  shows "length (stops s) < length (stops (run as (stop s))) \<and>
         length (wire s) \<le> length (wire (run as (stop s))) \<and>
         (outcome (stops (run as (stop s)) ! length (stops s)) = Resolved \<longleftrightarrow>
            Env (StopTimeout (length (stops s))) \<in> set as \<or>
            Received Done \<in> set (drop (length (wire s)) (wire (run as (stop s)))))"
proof (induction as rule: rev_induct)
  case Nil
  show ?case unfolding stop_connected[OF assms]
    by (simp add: run_def waiting_call_def ws_put_def)
next
  case (snoc a as)
  let ?k = "length (stops s)"
  let ?t = "run as (stop s)"
  have i: "service_inv ?t" using assms(1) by (intro inv_run inv_stop)
  have k: "?k < length (stops ?t)" using snoc by simp
  obtain xs where xs: "wire (act ?t a) = wire ?t @ xs"
      "Received Done \<in> set xs \<longleftrightarrow>
        a = Env (WsMessage Done) \<and> (sock ?t = Some OPEN \<or> sock ?t = Some CLOSING)"
    using wire_act[of ?t a] by blast
  have d: "drop (length (wire s)) (wire (act ?t a)) = drop (length (wire s)) (wire ?t) @ xs"
    using xs(1) snoc by simp
  have c: "call_ok (stops ?t ! ?k)" using i k by (rule nth_call_ok)
  show ?case
  proof (cases "outcome (stops ?t ! ?k) = Resolved")
    case True
    then show ?thesis using snoc resolved_act[OF k True, of a] length_stops_act[OF k, of a] d xs(1)
      by (auto simp: run_snoc)
  next
    case False
    then have p: "outcome (stops ?t ! ?k) = Pending"
      using c by (cases "outcome (stops ?t ! ?k)") (auto simp: call_ok_def)
    show ?thesis using snoc False pending_act[OF i k p, of a] length_stops_act[OF k, of a] d xs
      by (auto simp: run_snoc)
  qed
qed

subsection \<open>The main process\<close>

lemma nabr_append_quiet:
  "no_audio_before_ready xs \<Longrightarrow> \<not> list_ex is_audio ys \<Longrightarrow> no_audio_before_ready (xs @ ys)"
proof (induction xs rule: no_audio_before_ready.induct)
  case 1
  then show ?case
  proof (induction ys rule: no_audio_before_ready.induct)
  qed auto
qed auto

lemma nabr_append_ready:
  "no_audio_before_ready xs \<Longrightarrow> Received Ready \<in> set xs \<Longrightarrow> no_audio_before_ready (xs @ ys)"
  by (induction xs rule: no_audio_before_ready.induct) auto

lemma connectResult_step:
  "connectResult (step e s) = Some True \<Longrightarrow>
   connectResult s = Some True \<or> Received Ready \<in> set (wire (step e s))"
proof (cases e)
  case (WsMessage f)
  assume "connectResult (step e s) = Some True"
  then show ?thesis using WsMessage
    by (cases f) (auto simp: svc_defs Let_def split: option.splits if_splits)
qed (auto simp: svc_defs Let_def split: option.splits if_splits)

lemma ready_kept_step: "Received Ready \<in> set (wire s) \<Longrightarrow> Received Ready \<in> set (wire (step e s))"
  using wire_step[of e s] by auto

lemma ready_kept_stop: "Received Ready \<in> set (wire s) \<Longrightarrow> Received Ready \<in> set (wire (stop s))"
  using wire_stop[of s] by auto

lemma service_ok_connect: "service_ok (connect (new_service l))"
  by (simp add: service_ok_def inv_connect) (simp add: connect_def new_service_def)

lemma service_ok_step: "service_ok s \<Longrightarrow> service_ok (step e s)"
proof -
  assume a: "service_ok s"
  obtain xs where xs: "wire (step e s) = wire s @ xs" "\<not> list_ex is_audio xs"
    using wire_step[of e s] by blast
  have "no_audio_before_ready (wire (step e s))"
    unfolding xs(1) using a xs(2) by (auto simp: service_ok_def intro: nabr_append_quiet)
  moreover have "Received Ready \<in> set (wire (step e s))" if "connectResult (step e s) = Some True"
    using connectResult_step[OF that] a by (auto simp: service_ok_def ready_kept_step)
  ultimately show ?thesis using a by (simp add: service_ok_def inv_step)
qed

lemma connectResult_stop [simp]: "connectResult (stop s) = connectResult s"
  by (simp add: svc_defs Let_def)

lemma connectResult_disconnect [simp]: "connectResult (disconnect s) = connectResult s"
  by (simp add: svc_defs Let_def)

lemma service_ok_stop: "service_ok s \<Longrightarrow> service_ok (stop s)"
proof -
  assume a: "service_ok s"
  obtain xs where xs: "wire (stop s) = wire s @ xs" "\<not> list_ex is_audio xs"
    using wire_stop[of s] by blast
  have "no_audio_before_ready (wire (stop s))"
    unfolding xs(1) using a xs(2) by (auto simp: service_ok_def intro: nabr_append_quiet)
  then show ?thesis using a by (simp add: service_ok_def inv_stop ready_kept_stop)
qed

lemma service_ok_disconnect: "service_ok s \<Longrightarrow> service_ok (disconnect s)"
  by (simp add: service_ok_def inv_disconnect)

lemma service_ok_sendAudio:
  "service_ok s \<Longrightarrow> Received Ready \<in> set (wire s) \<Longrightarrow> sendAudio d s = Inr s' \<Longrightarrow>
   service_ok s' \<and> stops s' = stops s \<and> Received Ready \<in> set (wire s')"
  by (auto simp: service_ok_def inv_sendAudio sendAudio_def ws_put_def nabr_append_ready
      split: if_splits)

lemma length_stops_stop [simp]: "length (stops (stop s)) = Suc (length (stops s))"
  by (simp add: svc_defs Let_def)

lemma stops_disconnect [simp]: "stops (disconnect s) = stops s"
  by (simp add: svc_defs Let_def)

lemma handler_ok_update:
  "handler_ok ss h \<Longrightarrow> i < length ss \<Longrightarrow> length (stops (ss ! i)) \<le> length (stops s') \<Longrightarrow>
   handler_ok (ss[i := s']) h"
  by (cases h) (auto simp: nth_list_update)

lemma handler_ok_append: "handler_ok ss h \<Longrightarrow> handler_ok (ss @ [s]) h"
  by (cases h) (auto simp: nth_append)

lemma handlers_ok_update:
  "list_all (handler_ok ss) hs \<Longrightarrow> i < length ss \<Longrightarrow> length (stops (ss ! i)) \<le> length (stops s') \<Longrightarrow>
   list_all (handler_ok (ss[i := s'])) hs"
  by (auto simp: list_all_iff handler_ok_update)

lemma handlers_ok_append:
  "list_all (handler_ok ss) hs \<Longrightarrow> list_all (handler_ok (ss @ [s])) hs"
  by (auto simp: list_all_iff handler_ok_append)

lemma list_all_update: "list_all P xs \<Longrightarrow> P x \<Longrightarrow> list_all P (xs[i := x])"
  by (auto simp: list_all_iff dest!: set_update_subset_insert[THEN subsetD])

lemma main_inv_update:
  assumes "main_inv m" and "i < length (services m)" and "service_ok s'"
    and "length (stops (services m ! i)) \<le> length (stops s')"
    and "Received Ready \<in> set (wire (services m ! i)) \<Longrightarrow> Received Ready \<in> set (wire s')"
  shows "main_inv (m\<lparr>services := (services m)[i := s']\<rparr>)"
  using assms
  by (auto simp: main_inv_def list_all_update handlers_ok_update nth_list_update split: option.splits)

lemma main_inv_handlers_append:
  "main_inv m \<Longrightarrow> handler_ok (services m) h \<Longrightarrow> main_inv (m\<lparr>handlers := handlers m @ [h]\<rparr>)"
  by (auto simp: main_inv_def split: option.splits)

lemma main_inv_handlers_update:
  "main_inv m \<Longrightarrow> handler_ok (services m) h \<Longrightarrow> main_inv (m\<lparr>handlers := (handlers m)[c := h]\<rparr>)"
  by (auto simp: main_inv_def list_all_update split: option.splits)

lemma main_inv_new_service:
  "main_inv m \<Longrightarrow> main_inv (m\<lparr>services := services m @ [connect (new_service lang)]\<rparr>)"
  by (auto simp: main_inv_def service_ok_connect handlers_ok_append nth_append split: option.splits)

lemma main_inv_clear: "main_inv m \<Longrightarrow> main_inv (m\<lparr>whisperService := None\<rparr>)"
  by (auto simp: main_inv_def)

lemma main_inv_service: "main_inv m \<Longrightarrow> i < length (services m) \<Longrightarrow> service_ok (services m ! i)"
  by (simp add: main_inv_def list_all_length)

lemma main_inv_current:
  "main_inv m \<Longrightarrow> whisperService m = Some i \<Longrightarrow>
   i < length (services m) \<and> Received Ready \<in> set (wire (services m ! i))"
  by (simp add: main_inv_def)

lemma main_inv_handler:
  "main_inv m \<Longrightarrow> c < length (handlers m) \<Longrightarrow> handler_ok (services m) (handlers m ! c)"
  by (simp add: main_inv_def list_all_length)


lemma main_inv_start: "main_inv m \<Longrightarrow> main_inv (transcription_start lang m)"
proof (cases "whisperService m")
  case None
  assume a: "main_inv m"
  have "main_inv (m\<lparr>services := services m @ [connect (new_service lang)]\<rparr>)"
    using a by (rule main_inv_new_service)
  then have "main_inv (m\<lparr>services := services m @ [connect (new_service lang)]\<rparr>
      \<lparr>handlers := handlers m @ [StartAwaitsConnect (length (services m))]\<rparr>)"
    using main_inv_handlers_append[of "m\<lparr>services := services m @ [connect (new_service lang)]\<rparr>"
        "StartAwaitsConnect (length (services m))"] by simp
  then show ?thesis using None by (simp add: transcription_start_def)
next
  case (Some i)
  assume a: "main_inv m"
  note c = main_inv_current[OF a Some]
  have "main_inv (m\<lparr>services := (services m)[i := stop (services m ! i)]\<rparr>)"
    using a c by (intro main_inv_update service_ok_stop main_inv_service ready_kept_stop) simp_all
  then have "main_inv (m\<lparr>services := (services m)[i := stop (services m ! i)]\<rparr>
      \<lparr>handlers := handlers m @ [StartAwaitsStop i (length (stops (services m ! i))) lang]\<rparr>)"
    using main_inv_handlers_append[of "m\<lparr>services := (services m)[i := stop (services m ! i)]\<rparr>"
        "StartAwaitsStop i (length (stops (services m ! i))) lang"] c by simp
  then show ?thesis using Some by (simp add: transcription_start_def)
qed

lemma main_inv_stop: "main_inv m \<Longrightarrow> main_inv (transcription_stop m)"
proof (cases "whisperService m")
  case None
  assume a: "main_inv m"
  then show ?thesis using None main_inv_handlers_append[OF a, of "Returned None"]
    by (simp add: transcription_stop_def)
next
  case (Some i)
  assume a: "main_inv m"
  note c = main_inv_current[OF a Some]
  have "main_inv (m\<lparr>services := (services m)[i := stop (services m ! i)]\<rparr>)"
    using a c by (intro main_inv_update service_ok_stop main_inv_service ready_kept_stop) simp_all
  then have "main_inv (m\<lparr>services := (services m)[i := stop (services m ! i)]\<rparr>
      \<lparr>handlers := handlers m @ [StopAwaitsStop i (length (stops (services m ! i)))]\<rparr>)"
    using main_inv_handlers_append[of "m\<lparr>services := (services m)[i := stop (services m ! i)]\<rparr>"
        "StopAwaitsStop i (length (stops (services m ! i)))"] c by simp
  then show ?thesis using Some by (simp add: transcription_stop_def)
qed

lemma main_inv_send_audio: "main_inv m \<Longrightarrow> main_inv (transcription_send_audio d m)"
proof (cases "whisperService m")
  case None
  assume a: "main_inv m"
  then show ?thesis using None main_inv_handlers_append[OF a, of "Threw TranscriptionNotStarted"]
    by (simp add: transcription_send_audio_def)
next
  case (Some i)
  assume a: "main_inv m"
  note c = main_inv_current[OF a Some]
  show ?thesis
  proof (cases "sendAudio d (services m ! i)")
    case (Inl e)
    then show ?thesis using Some main_inv_handlers_append[OF a, of "Threw e"]
        main_inv_handlers_append[OF a, of "Threw TranscriptionNotConnected"]
      by (simp add: transcription_send_audio_def)
  next
    case (Inr s')
    note k = service_ok_sendAudio[OF main_inv_service[OF a] _ Inr]
    have "main_inv (m\<lparr>services := (services m)[i := s']\<rparr>)"
      using a c k by (intro main_inv_update) simp_all
    then have "main_inv (m\<lparr>services := (services m)[i := s']\<rparr>\<lparr>handlers := handlers m @ [Returned None]\<rparr>)"
      using main_inv_handlers_append[of "m\<lparr>services := (services m)[i := s']\<rparr>" "Returned None"]
      by simp
    then show ?thesis using Some Inr main_inv_handlers_append[OF a, of "Threw TranscriptionNotConnected"]
      by (simp add: transcription_send_audio_def)
  qed
qed

lemma main_inv_socket:
  "main_inv m \<Longrightarrow> i < length (services m) \<Longrightarrow>
   main_inv (m\<lparr>services := (services m)[i := step e (services m ! i)]\<rparr>)"
  by (intro main_inv_update service_ok_step main_inv_service ready_kept_step) simp_all

lemma main_inv_resume: "main_inv m \<Longrightarrow> c < length (handlers m) \<Longrightarrow> main_inv (resume c m)"
proof (cases "handlers m ! c")
  case (StartAwaitsStop i k lang)
  assume a: "main_inv m" and c: "c < length (handlers m)"
  have "main_inv (m\<lparr>whisperService := None\<rparr>\<lparr>services := services m @ [connect (new_service lang)]\<rparr>)"
    using main_inv_new_service[OF main_inv_clear[OF a], of lang] by simp
  then have "main_inv (m\<lparr>whisperService := None, services := services m @ [connect (new_service lang)],
       handlers := (handlers m)[c := StartAwaitsConnect (length (services m))]\<rparr>)"
    using main_inv_handlers_update[of "m\<lparr>whisperService := None\<rparr>\<lparr>services := services m @ [connect (new_service lang)]\<rparr>"
        "StartAwaitsConnect (length (services m))" c] by simp
  then show ?thesis using StartAwaitsStop a
      main_inv_handlers_update[OF a, of "Threw WebSocketNotOpen" c]
    by (simp add: resume_def split: promise.splits)
next
  case (StartAwaitsConnect j)
  assume a: "main_inv m" and c: "c < length (handlers m)"
  have j: "j < length (services m)" using main_inv_handler[OF a c] StartAwaitsConnect by simp
  note ok = main_inv_service[OF a j]
  have t: "main_inv (m\<lparr>whisperService := Some j, handlers := (handlers m)[c := Returned (Some True)]\<rparr>)"
    if "connectResult (services m ! j) = Some True"
    using a j ok that by (auto simp: main_inv_def service_ok_def list_all_update)
  have "main_inv (m\<lparr>whisperService := None\<rparr>\<lparr>services := (services m)[j := disconnect (services m ! j)]\<rparr>)"
    using main_inv_update[OF main_inv_clear[OF a], of j "disconnect (services m ! j)"] j ok
    by (simp add: service_ok_disconnect)
  then have f: "main_inv (m\<lparr>whisperService := None, services := (services m)[j := disconnect (services m ! j)],
       handlers := (handlers m)[c := Returned (Some False)]\<rparr>)"
    using main_inv_handlers_update[of "m\<lparr>whisperService := None\<rparr>\<lparr>services := (services m)[j := disconnect (services m ! j)]\<rparr>"
        "Returned (Some False)" c] by simp
  show ?thesis using StartAwaitsConnect a t f
    by (auto simp: resume_def split: option.splits)
next
  case (StopAwaitsStop i k)
  assume a: "main_inv m" and c: "c < length (handlers m)"
  show ?thesis using StopAwaitsStop a
      main_inv_handlers_update[OF a, of "Threw WebSocketNotOpen" c]
      main_inv_handlers_update[OF main_inv_clear[OF a], of "Returned None" c]
    by (simp add: resume_def split: promise.splits)
qed (simp_all add: resume_def)

lemma main_inv_step: "main_inv m \<Longrightarrow> main_inv (ipc_step m e)"
  by (cases e)
    (simp_all add: main_inv_start main_inv_stop main_inv_send_audio main_inv_resume main_inv_socket)

lemma main_inv_foldl: "main_inv m \<Longrightarrow> main_inv (foldl ipc_step m es)"
  by (induction es arbitrary: m) (simp_all add: main_inv_step)

lemma main_inv_run: "main_inv (ipc_run es)"
  unfolding ipc_run_def by (rule main_inv_foldl) (simp add: main_inv_def main_process0_def)

lemma sendAudio_session:
  "service_inv s \<Longrightarrow>
   sendAudio d s =
     (if isConnected s \<and> ws s
      then Inr (if sock s = Some OPEN then s\<lparr>wire := wire s @ [Sent (Audio d)]\<rparr> else s)
      else Inr (s\<lparr>warnings := Suc (warnings s)\<rparr>))"
  by (auto simp: sendAudio_def ws_throws_def ws_put_def service_inv_def)

lemma connect_timeout_result:
  assumes "service_ok s" and "connectTimer s" and "\<not> isConnected s"
    and "Received Ready \<notin> set (wire s)"
  shows "connectResult (step ConnectTimeout s) = Some False"
proof -
  have "connectResult s \<noteq> Some True" using assms(1,4) by (auto simp: service_ok_def)
  then show ?thesis using assms(2,3)
    by (cases "connectResult s") (auto simp: connect_timeout_def resolve_connect_def ws_close_def)
qed

lemma torn_down_disconnect: "service_inv s \<Longrightarrow> torn_down (disconnect s)"
  by (rule inv_torn_down[OF inv_disconnect]) (simp_all add: disconnect_def Let_def)

lemma resume_connect_failed:
  assumes "main_inv m" and "c < length (handlers m)" and "handlers m ! c = StartAwaitsConnect j"
    and "connectResult (services m ! j) = Some False"
  shows "resume c m =
           m\<lparr>whisperService := None,
             services := (services m)[j := disconnect (services m ! j)],
             handlers := (handlers m)[c := Returned (Some False)]\<rparr> \<and>
         j < length (services m) \<and> torn_down (disconnect (services m ! j))"
proof -
  have j: "j < length (services m)" using main_inv_handler[OF assms(1,2)] assms(3) by simp
  have "service_inv (services m ! j)"
    using main_inv_service[OF assms(1) j] by (simp add: service_ok_def)
  then show ?thesis using assms j by (simp add: resume_def torn_down_disconnect)
qed

lemma torn_down_step: "service_inv s \<Longrightarrow> torn_down s \<Longrightarrow> torn_down (step e s)"
  by (intro inv_torn_down inv_step ws_step) (simp_all add: torn_down_def)

lemma torn_down_stop: "service_inv s \<Longrightarrow> torn_down s \<Longrightarrow> torn_down (stop s)"
  by (simp add: torn_down_def stop_def)

lemma torn_down_disconnect_kept: "torn_down s \<Longrightarrow> torn_down (disconnect s)"
  by (simp add: torn_down_def disconnect_def)

lemma torn_down_sendAudio: "torn_down s \<Longrightarrow> sendAudio d s = Inr s' \<Longrightarrow> torn_down s'"
  by (auto simp: torn_down_def sendAudio_def)

lemma torn_down_update:
  "i < length ss \<Longrightarrow> torn_down (ss ! i) \<Longrightarrow> (j = i \<Longrightarrow> torn_down s') \<Longrightarrow>
   torn_down (ss[j := s'] ! i)"
  by (cases "j = i") auto

lemma length_services_ipc_step: "length (services m) \<le> length (services (ipc_step m e))"
proof (cases e)
  case (Resume c)
  then show ?thesis
    by (cases "handlers m ! c")
      (auto simp: resume_def split: promise.splits option.splits)
qed (auto simp: ipc_simps split: option.splits sum.splits)

lemma length_handlers_ipc_step: "length (handlers m) \<le> length (handlers (ipc_step m e))"
proof (cases e)
  case (Resume c)
  then show ?thesis
    by (cases "handlers m ! c")
      (auto simp: resume_def split: promise.splits option.splits)
qed (auto simp: ipc_simps split: option.splits sum.splits)

lemma torn_down_ipc_step:
  assumes "main_inv m" and "i < length (services m)" and "torn_down (services m ! i)"
  shows "torn_down (services (ipc_step m e) ! i)"
proof -
  have inv: "service_inv (services m ! i)"
    using main_inv_service[OF assms(1,2)] by (simp add: service_ok_def)
  note keep = torn_down_step[OF inv assms(3)] torn_down_stop[OF inv assms(3)]
    torn_down_disconnect_kept[OF assms(3)] torn_down_sendAudio[OF assms(3)]
  show ?thesis
  proof (cases e)
    case (TranscriptionStart lang)
    then show ?thesis using assms keep
      by (auto simp: transcription_start_def nth_append intro!: torn_down_update split: option.splits)
  next
    case (TranscriptionSendAudio d)
    then show ?thesis using assms keep
      by (auto simp: transcription_send_audio_def intro!: torn_down_update
          split: option.splits sum.splits)
  next
    case TranscriptionStop
    then show ?thesis using assms keep
      by (auto simp: transcription_stop_def intro!: torn_down_update split: option.splits)
  next
    case (Resume c)
    then show ?thesis using assms keep
      by (cases "handlers m ! c")
        (auto simp: resume_def nth_append intro!: torn_down_update
          split: promise.splits option.splits)
  next
    case (Socket j ev)
    then show ?thesis using assms keep by (auto intro!: torn_down_update)
  qed
qed

lemma handler_kept:
  assumes "c < length (handlers m)" and "e \<noteq> Resume c"
  shows "handlers (ipc_step m e) ! c = handlers m ! c"
proof (cases e)
  case (Resume c')
  then show ?thesis using assms
    by (cases "handlers m ! c'")
      (auto simp: resume_def split: promise.splits option.splits)
qed (use assms in \<open>auto simp: ipc_simps nth_append split: option.splits sum.splits\<close>)

lemma start_progress_resume:
  assumes "main_inv m" and "c < length (handlers m)" and "i < length (services m)"
    and "n \<le> length (services m)" and "start_progress c i lang n m"
  shows "start_progress c i lang n (resume c m)"
proof (cases "handlers m ! c")
  case (StartAwaitsStop i' k l)
  then have eq: "i' = i" "l = lang" using assms(5) by (simp_all add: start_progress_def)
  have k: "k < length (stops (services m ! i))"
    using main_inv_handler[OF assms(1,2)] StartAwaitsStop eq by simp
  have inv: "service_inv (services m ! i)"
    using main_inv_service[OF assms(1,3)] by (simp add: service_ok_def)
  have nr: "outcome (stops (services m ! i) ! k) \<noteq> Rejected"
    using nth_call_ok[OF inv k] by (simp add: call_ok_def)
  have "torn_down (services m ! i)" if "outcome (stops (services m ! i) ! k) = Resolved"
    using inv k that by (intro inv_torn_down resolved_no_ws)
  then show ?thesis using StartAwaitsStop eq nr assms(2,3,4)
    by (auto simp: resume_def start_progress_def nth_append split: promise.splits)
next
  case (StartAwaitsConnect j)
  then show ?thesis using assms torn_down_disconnect_kept[of "services m ! i"]
    by (auto simp: resume_def start_progress_def intro!: torn_down_update split: option.splits)
qed (use assms in \<open>auto simp: resume_def start_progress_def\<close>)

lemma start_progress_step:
  assumes "main_inv m" and "c < length (handlers m)" and "i < length (services m)"
    and "n \<le> length (services m)" and "start_progress c i lang n m"
  shows "start_progress c i lang n (ipc_step m e)"
proof (cases "e = Resume c")
  case True
  then show ?thesis using start_progress_resume[OF assms] assms(2) by simp
next
  case False
  have h: "handlers (ipc_step m e) ! c = handlers m ! c" using assms(2) False by (rule handler_kept)
  have t: "torn_down (services m ! i) \<Longrightarrow> torn_down (services (ipc_step m e) ! i)"
    using assms(1,3) by (rule torn_down_ipc_step)
  show ?thesis using assms(5) t unfolding start_progress_def h
    by (auto split: handler.splits)
qed

lemma start_progress_foldl:
  assumes "main_inv m" and "c < length (handlers m)" and "i < length (services m)"
    and "n \<le> length (services m)" and "start_progress c i lang n m"
  shows "start_progress c i lang n (foldl ipc_step m es)"
  using assms
proof (induction es arbitrary: m)
  case Nil
  then show ?case by simp
next
  case (Cons e es)
  have "start_progress c i lang n (foldl ipc_step (ipc_step m e) es)"
  proof (rule Cons.IH)
    show "main_inv (ipc_step m e)" using Cons.prems(1) by (rule main_inv_step)
    show "c < length (handlers (ipc_step m e))"
      using Cons.prems(2) length_handlers_ipc_step[of m e] by simp
    show "i < length (services (ipc_step m e))"
      using Cons.prems(3) length_services_ipc_step[of m e] by simp
    show "n \<le> length (services (ipc_step m e))"
      using Cons.prems(4) length_services_ipc_step[of m e] by simp
    show "start_progress c i lang n (ipc_step m e)"
      using Cons.prems by (rule start_progress_step)
  qed
  then show ?case by simp
qed

lemma connectResult_kept_step: "connectResult s = Some b \<Longrightarrow> connectResult (step e s) = Some b"
proof (cases e)
  case (WsMessage f)
  assume "connectResult s = Some b"
  then show ?thesis using WsMessage
    by (cases f) (auto simp: svc_defs Let_def)
qed (auto simp: svc_defs Let_def)

lemma connectResult_sendAudio: "sendAudio d s = Inr s' \<Longrightarrow> connectResult s' = connectResult s"
  by (auto simp: sendAudio_def ws_put_def split: if_splits)

lemma nth_update_keeps:
  "i < length ss \<Longrightarrow> P (ss ! i) \<Longrightarrow> (j = i \<Longrightarrow> P s') \<Longrightarrow> P (ss[j := s'] ! i)"
  by (cases "j = i") auto

lemma connectResult_ipc_step:
  assumes "j < length (services m)" and "connectResult (services m ! j) = Some b"
  shows "connectResult (services (ipc_step m e) ! j) = Some b"
proof -
  note keep = connectResult_kept_step[OF assms(2)] connectResult_sendAudio[of _ "services m ! j"]
  show ?thesis
  proof (cases e)
    case (TranscriptionStart lang)
    then show ?thesis using assms
      by (auto simp: transcription_start_def nth_append
          intro!: nth_update_keeps[where P="\<lambda>s. connectResult s = Some b"] split: option.splits)
  next
    case (TranscriptionSendAudio d)
    then show ?thesis using assms keep
      by (auto simp: transcription_send_audio_def
          intro!: nth_update_keeps[where P="\<lambda>s. connectResult s = Some b"]
          split: option.splits sum.splits)
  next
    case TranscriptionStop
    then show ?thesis using assms
      by (auto simp: transcription_stop_def
          intro!: nth_update_keeps[where P="\<lambda>s. connectResult s = Some b"] split: option.splits)
  next
    case (Resume c)
    then show ?thesis using assms
      by (cases "handlers m ! c")
        (auto simp: resume_def nth_append
          intro!: nth_update_keeps[where P="\<lambda>s. connectResult s = Some b"]
          split: promise.splits option.splits)
  next
    case (Socket i ev)
    then show ?thesis using assms keep
      by (auto intro!: nth_update_keeps[where P="\<lambda>s. connectResult s = Some b"])
  qed
qed

lemma connect_failed_step:
  assumes "main_inv m" and "c < length (handlers m)" and "j < length (services m)"
    and "connect_failed c j m"
  shows "connect_failed c j (ipc_step m e)"
proof (cases "e = Resume c")
  case True
  show ?thesis
  proof (cases "handlers m ! c = StartAwaitsConnect j")
    case a: True
    have r: "connectResult (services m ! j) = Some False"
      using assms(4) by (simp add: connect_failed_def)
    note f = resume_connect_failed[OF assms(1,2) a r]
    show ?thesis using True f assms(2,3) r by (simp add: connect_failed_def)
  next
    case False
    then show ?thesis using True assms(2,4) by (auto simp: connect_failed_def resume_def)
  qed
next
  case False
  have h: "handlers (ipc_step m e) ! c = handlers m ! c" using assms(2) False by (rule handler_kept)
  have t: "torn_down (services m ! j) \<Longrightarrow> torn_down (services (ipc_step m e) ! j)"
    using assms(1,3) by (rule torn_down_ipc_step)
  have r: "connectResult (services (ipc_step m e) ! j) = Some False"
    using assms(3,4) by (intro connectResult_ipc_step) (simp_all add: connect_failed_def)
  show ?thesis using assms(4) t r unfolding connect_failed_def h by auto
qed

lemma connect_failed_foldl:
  assumes "main_inv m" and "c < length (handlers m)" and "j < length (services m)"
    and "connect_failed c j m"
  shows "connect_failed c j (foldl ipc_step m es) \<and> main_inv (foldl ipc_step m es) \<and>
         c < length (handlers (foldl ipc_step m es)) \<and> j < length (services (foldl ipc_step m es))"
  using assms
proof (induction es arbitrary: m)
  case Nil
  then show ?case by simp
next
  case (Cons e es)
  have "connect_failed c j (foldl ipc_step (ipc_step m e) es) \<and>
        main_inv (foldl ipc_step (ipc_step m e) es) \<and>
        c < length (handlers (foldl ipc_step (ipc_step m e) es)) \<and>
        j < length (services (foldl ipc_step (ipc_step m e) es))"
  proof (rule Cons.IH)
    show "main_inv (ipc_step m e)" using Cons.prems(1) by (rule main_inv_step)
    show "c < length (handlers (ipc_step m e))"
      using Cons.prems(2) length_handlers_ipc_step[of m e] by simp
    show "j < length (services (ipc_step m e))"
      using Cons.prems(3) length_services_ipc_step[of m e] by simp
    show "connect_failed c j (ipc_step m e)"
      using Cons.prems by (rule connect_failed_step)
  qed
  then show ?case by simp
qed

section \<open>The claims\<close>



text \<open>
  C9, as the code has it. The service keeps no state that tells a first \<^verbatim>\<open>ready\<close>
  from a later one: in every session the \<^verbatim>\<open>ready\<close> event was emitted exactly as often
  as a \<^verbatim>\<open>ready\<close> frame came in. A \<^verbatim>\<open>ready\<close> frame that arrives when the promise of
  \<^verbatim>\<open>connect()\<close> is already settled emits the event again and changes nothing else.
\<close>

theorem ready_emitted_per_ready_frame:
  "count_list (emitted (session lang as)) EmitReady =
     count_list (wire (session lang as)) (Received Ready) \<and>
   (\<forall>s. (sock s = Some OPEN \<or> sock s = Some CLOSING) \<longrightarrow> connectResult s \<noteq> None \<longrightarrow>
      step (WsMessage Ready) s =
        s\<lparr>wire := wire s @ [Received Ready], emitted := emitted s @ [EmitReady]\<rparr>)"
proof -
  have "count_list (emitted (session lang as)) EmitReady =
     count_list (wire (session lang as)) (Received Ready)"
    unfolding session_def by (rule ready_count_run) (simp add: connect_def new_service_def)
  moreover have "\<forall>s. (sock s = Some OPEN \<or> sock s = Some CLOSING) \<longrightarrow> connectResult s \<noteq> None \<longrightarrow>
      step (WsMessage Ready) s =
        s\<lparr>wire := wire s @ [Received Ready], emitted := emitted s @ [EmitReady]\<rparr>"
    by (auto simp: emit_def resolve_connect_def)
  ultimately show ?thesis by simp
qed

theorem ready_emitted_per_ready_frame_witness:
  "count_list (emitted (session ''en'' [Env WsOpen, Env (WsMessage Ready), Env (WsMessage Ready)]))
     EmitReady = 2 \<and>
   count_list (wire (session ''en'' [Env WsOpen, Env (WsMessage Ready), Env (WsMessage Ready)]))
     (Received Ready) = 2 \<and>
   sock (session ''en'' [Env WsOpen, Env (WsMessage Ready)]) = Some OPEN \<and>
   connectResult (session ''en'' [Env WsOpen, Env (WsMessage Ready)]) = Some True \<and>
   emitted (step (WsMessage Ready) (session ''en'' [Env WsOpen, Env (WsMessage Ready)])) =
     [EmitReady, EmitReady]"
  using ready_emitted_per_ready_frame
    [of "''en''" "[Env WsOpen, Env (WsMessage Ready), Env (WsMessage Ready)]"]
  by (simp add: session_simps)

text \<open>
  C9 as stated fails: a second \<^verbatim>\<open>ready\<close> frame fires the event a second time, and the
  IPC listener forwards it to the renderer a second time.
\<close>

theorem duplicate_ready_refires_counterexample:
  "count_list
     (emitted (session ''en'' [Env WsOpen, Env (WsMessage Ready), Env (WsMessage Ready)]))
     EmitReady = 2 \<and>
   to_renderer (session ''en'' [Env WsOpen, Env (WsMessage Ready), Env (WsMessage Ready)]) =
     [TranscriptionReady, TranscriptionReady]"
  by (simp add: session_simps)

text \<open>
  C8, as the code has it. The listener of the page replaces the text only when the
  text of the frame is truthy: after any sequence of \<^verbatim>\<open>transcript\<close> frames the page
  shows the text of the most recent frame whose text is present and not empty, and
  what it showed before when there is none. It never appends.
\<close>

theorem transcript_display_replaces:
  assumes "sock s = Some OPEN \<or> sock s = Some CLOSING"
  shows "displayed (to_renderer (run (transcript_frames ts) s)) =
           (case rev (filter truthy ts) of
              [] \<Rightarrow> displayed (to_renderer s)
            | t # earlier \<Rightarrow> text_of t)"
proof -
  have "to_renderer (run (transcript_frames ts) s) = to_renderer s @ map TranscriptionResult ts"
    unfolding transcripts_run[OF assms] to_renderer_def
    by (induction ts rule: rev_induct) auto
  then show ?thesis by (simp add: displayed_def page_fold split: list.splits)
qed

theorem transcript_display_replaces_witness:
  "sock (session ''en'' [Env WsOpen, Env (WsMessage Ready)]) = Some OPEN \<and>
   displayed (to_renderer (run
      (transcript_frames [Some ''Hello'', Some ''Hello world'', Some []])
      (session ''en'' [Env WsOpen, Env (WsMessage Ready)]))) = ''Hello world''"
  using transcript_display_replaces
    [of "session ''en'' [Env WsOpen, Env (WsMessage Ready)]"
        "[Some ''Hello'', Some ''Hello world'', Some []]"]
  by (simp add: session_simps text_of_def)

text \<open>
  C8 as stated fails: after the frames \<^verbatim>\<open>"Hello"\<close> and \<^verbatim>\<open>""\<close> the page still shows
  \<^verbatim>\<open>Hello\<close>, not the empty text of the most recent frame.
\<close>

theorem transcript_display_empty_text_counterexample:
  "displayed (to_renderer (session ''en''
      [Env WsOpen, Env (WsMessage Ready), Env (WsMessage (Transcript (Some ''Hello''))),
       Env (WsMessage (Transcript (Some [])))])) = ''Hello''"
  by (simp add: session_simps)

text \<open>
  C3, as the code has it. Once a \<^verbatim>\<open>stop()\<close> call of a session has resolved (the
  \<^verbatim>\<open>done\<close> frame came or the 10 s timer fired, and \<^verbatim>\<open>disconnect()\<close> ran), no audio
  frame is written for that session any more, whatever is called and whatever
  arrives afterwards. Before that \<^verbatim>\<open>stop()\<close> holds no audio back: on a connected
  session it leaves \<^verbatim>\<open>isConnected\<close>, \<^verbatim>\<open>this.ws\<close> and the state of the socket as they
  are, and in every state of a session \<^verbatim>\<open>sendAudio\<close> writes the audio frame exactly
  when \<^verbatim>\<open>isConnected\<close> is true, \<^verbatim>\<open>this.ws\<close> is set and the socket is open.
\<close>

theorem no_audio_once_stop_resolved:
  assumes "s = session lang pre"
  shows "(k < length (stops s) \<and> outcome (stops s ! k) = Resolved \<longrightarrow>
            filter is_audio (wire (run as s)) = filter is_audio (wire s)) \<and>
         sendAudio d s =
           (if isConnected s \<and> ws s
            then Inr (if sock s = Some OPEN then s\<lparr>wire := wire s @ [Sent (Audio d)]\<rparr> else s)
            else Inr (s\<lparr>warnings := Suc (warnings s)\<rparr>)) \<and>
         (isConnected s \<and> ws s \<longrightarrow>
            isConnected (stop s) \<and> ws (stop s) \<and> sock (stop s) = sock s)"
proof -
  have i: "service_inv s" using assms by (simp add: inv_session)
  have "filter is_audio (wire (run as s)) = filter is_audio (wire s)"
    if "k < length (stops s)" and "outcome (stops s ! k) = Resolved"
  proof -
    have "\<not> ws s" using i that by (rule resolved_no_ws)
    then show ?thesis by (rule audio_run)
  qed
  moreover have "isConnected (stop s) \<and> ws (stop s) \<and> sock (stop s) = sock s"
    if "isConnected s \<and> ws s"
    using that stop_connected[OF i] by (simp add: ws_put_def)
  ultimately show ?thesis using sendAudio_session[OF i, of d] by simp
qed

theorem no_audio_once_stop_resolved_witness:
  "0 < length (stops (session ''en''
         [Env WsOpen, Env (WsMessage Ready), CallStop, Env (WsMessage Done)])) \<and>
   outcome (stops (session ''en''
         [Env WsOpen, Env (WsMessage Ready), CallStop, Env (WsMessage Done)]) ! 0) = Resolved \<and>
   filter is_audio (wire (run [CallSendAudio ''late'']
      (session ''en'' [Env WsOpen, Env (WsMessage Ready), CallStop, Env (WsMessage Done)]))) = [] \<and>
   isConnected (session ''en'' [Env WsOpen, Env (WsMessage Ready)]) \<and>
   ws (session ''en'' [Env WsOpen, Env (WsMessage Ready)]) \<and>
   isConnected (stop (session ''en'' [Env WsOpen, Env (WsMessage Ready)])) \<and>
   ws (stop (session ''en'' [Env WsOpen, Env (WsMessage Ready)])) \<and>
   sock (stop (session ''en'' [Env WsOpen, Env (WsMessage Ready)])) = Some OPEN \<and>
   isConnected (session ''en'' [Env WsOpen, Env (WsMessage Ready), CallStop]) \<and>
   sendAudio ''late'' (session ''en'' [Env WsOpen, Env (WsMessage Ready), CallStop]) =
     Inr ((session ''en'' [Env WsOpen, Env (WsMessage Ready), CallStop])
       \<lparr>wire := [Sent (Config ''en''), Received Ready, Sent Stop, Sent (Audio ''late'')]\<rparr>) \<and>
   \<not> isConnected (session ''en'' [Env WsOpen, Env (WsMessage Ready), CallStop, Env WsClose]) \<and>
   sendAudio ''late'' (session ''en'' [Env WsOpen, Env (WsMessage Ready), CallStop, Env WsClose]) =
     Inr ((session ''en'' [Env WsOpen, Env (WsMessage Ready), CallStop, Env WsClose])
       \<lparr>warnings := 1\<rparr>)"
  using no_audio_once_stop_resolved
    [of "session ''en'' [Env WsOpen, Env (WsMessage Ready), CallStop, Env (WsMessage Done)]"
        "''en''" "[Env WsOpen, Env (WsMessage Ready), CallStop, Env (WsMessage Done)]" 0
        "[CallSendAudio ''late'']" "''late''"]
    no_audio_once_stop_resolved
    [of "session ''en'' [Env WsOpen, Env (WsMessage Ready)]"
        "''en''" "[Env WsOpen, Env (WsMessage Ready)]" 0 "[]" "''late''"]
    no_audio_once_stop_resolved
    [of "session ''en'' [Env WsOpen, Env (WsMessage Ready), CallStop]"
        "''en''" "[Env WsOpen, Env (WsMessage Ready), CallStop]" 0 "[]" "''late''"]
    no_audio_once_stop_resolved
    [of "session ''en'' [Env WsOpen, Env (WsMessage Ready), CallStop, Env WsClose]"
        "''en''" "[Env WsOpen, Env (WsMessage Ready), CallStop, Env WsClose]" 0 "[]" "''late''"]
  by (simp add: session_simps)

text \<open>
  C3 as stated fails: in this run \<^verbatim>\<open>stop()\<close> waits for \<^verbatim>\<open>done\<close> with the socket open, so
  a late chunk is written after the \<^verbatim>\<open>stop\<close> frame, on the service and through the IPC
  handlers alike.
\<close>

theorem audio_after_stop_counterexample:
  "wire (session ''en'' [Env WsOpen, Env (WsMessage Ready), CallStop, CallSendAudio ''late'']) =
     [Sent (Config ''en''), Received Ready, Sent Stop, Sent (Audio ''late'')] \<and>
   wire (services (ipc_run [TranscriptionStart ''en'', Socket 0 WsOpen,
      Socket 0 (WsMessage Ready), Resume 0, TranscriptionStop,
      TranscriptionSendAudio ''late'']) ! 0) =
     [Sent (Config ''en''), Received Ready, Sent Stop, Sent (Audio ''late'')]"
  by (simp add: session_simps ipc_simps)

text \<open>
  C5, as the code has it. A second \<^verbatim>\<open>stop()\<close> on a connected session (its socket
  open) that is still waiting for \<^verbatim>\<open>done\<close> writes a second \<^verbatim>\<open>stop\<close> frame and waits as
  the first does;
  when \<^verbatim>\<open>done\<close> comes both promises resolve and the session is torn down. A
  \<^verbatim>\<open>stop()\<close> that is called after the first one has completed (by \<^verbatim>\<open>done\<close> or by its
  timer) writes nothing and resolves at once.
\<close>

theorem second_stop_while_waiting:
  assumes "s = session lang as" and "isConnected s" and "ws s" and "sock s = Some OPEN"
  shows "wire (stop (stop s)) = wire s @ [Sent Stop, Sent Stop] \<and>
         stops (stop (stop s)) = stops s @ [waiting_call, waiting_call] \<and>
         stops (step (WsMessage Done) (stop (stop s))) =
           map fire_done (stops s) @ [settled_call Resolved, settled_call Resolved] \<and>
         torn_down (step (WsMessage Done) (stop (stop s))) \<and>
         (\<forall>e. e = WsMessage Done \<or> e = StopTimeout (length (stops s)) \<longrightarrow>
            stop (step e (stop s)) =
              (step e (stop s))\<lparr>stops := stops (step e (stop s)) @ [settled_call Resolved]\<rparr>)"
proof -
  have i: "service_inv s" using assms(1) by (simp add: inv_session)
  note o = assms(4)
  have 1: "stop s = s\<lparr>wire := wire s @ [Sent Stop], stops := stops s @ [waiting_call]\<rparr>"
    using stop_connected[OF i assms(2,3)] o by (simp add: ws_put_def)
  have 2: "stop (stop s) = s\<lparr>wire := wire s @ [Sent Stop, Sent Stop], stops := stops s @ [waiting_call, waiting_call]\<rparr>"
    unfolding 1 using o assms(2,3) by (simp add: stop_def ws_throws_def ws_put_def)
  have 3: "stops (step (WsMessage Done) (stop (stop s))) =
           map fire_done (stops s) @ [settled_call Resolved, settled_call Resolved]"
    unfolding 2 using o by (simp add: emit_done_def emit_def waiting_call_def settled_call_def fire_done_def disconnect_def Let_def)
  have "\<not> ws (step (WsMessage Done) (stop (stop s)))"
    unfolding 2 using o by (simp add: emit_done_def emit_def waiting_call_def disconnect_def Let_def)
  then have 4: "torn_down (step (WsMessage Done) (stop (stop s)))"
    by (intro inv_torn_down inv_step inv_stop i)
  have 5: "\<not> ws (step e (stop s))" if "e = WsMessage Done \<or> e = StopTimeout (length (stops s))" for e
    using that unfolding 1 using o assms(3)
    by (auto simp: emit_done_def emit_def waiting_call_def disconnect_def stop_timeout_def Let_def)
  have 6: "stop (step e (stop s)) =
              (step e (stop s))\<lparr>stops := stops (step e (stop s)) @ [settled_call Resolved]\<rparr>"
    if "e = WsMessage Done \<or> e = StopTimeout (length (stops s))" for e
    using 5[OF that] by (simp add: stop_def)
  show ?thesis using 2 3 4 6 by simp
qed

theorem second_stop_while_waiting_witness:
  "isConnected (session ''en'' [Env WsOpen, Env (WsMessage Ready)]) \<and>
   ws (session ''en'' [Env WsOpen, Env (WsMessage Ready)]) \<and>
   sock (session ''en'' [Env WsOpen, Env (WsMessage Ready)]) = Some OPEN \<and>
   wire (stop (stop (session ''en'' [Env WsOpen, Env (WsMessage Ready)]))) =
     [Sent (Config ''en''), Received Ready, Sent Stop, Sent Stop] \<and>
   stops (step (WsMessage Done) (stop (stop (session ''en'' [Env WsOpen, Env (WsMessage Ready)])))) =
     [settled_call Resolved, settled_call Resolved]"
  using second_stop_while_waiting
    [of "session ''en'' [Env WsOpen, Env (WsMessage Ready)]" "''en''"
        "[Env WsOpen, Env (WsMessage Ready)]"]
  by (simp add: session_simps)

text \<open>
  C5 as stated fails: two calls of \<^verbatim>\<open>stop()\<close> in succession put two \<^verbatim>\<open>stop\<close> frames
  on the wire, on the service and through \<^verbatim>\<open>transcription:stop\<close> alike.
\<close>

theorem double_stop_two_frames_counterexample:
  "count_list
     (wire (session ''en'' [Env WsOpen, Env (WsMessage Ready), CallStop, CallStop]))
     (Sent Stop) = 2 \<and>
   count_list
     (wire (services (ipc_run [TranscriptionStart ''en'', Socket 0 WsOpen,
        Socket 0 (WsMessage Ready), Resume 0, TranscriptionStop, TranscriptionStop]) ! 0))
     (Sent Stop) = 2"
  by (simp add: session_simps ipc_simps)

text \<open>
  C4. A \<^verbatim>\<open>stop()\<close> on a connected session hands the \<^verbatim>\<open>stop\<close> frame to the socket
  (which writes it when it is open), and its promise is never rejected. Whatever
  happens and whatever is called afterwards, the promise is resolved exactly
  when the 10 s timer of the call has fired or a \<^verbatim>\<open>done\<close> frame has been received
  since the call; and when it is resolved the session is torn down (\<^verbatim>\<open>close()\<close> was
  called on the socket, \<^verbatim>\<open>this.ws\<close> is null, \<^verbatim>\<open>isConnected\<close> is false) and the timer of
  the call is no longer set.
\<close>

theorem stop_resolves_on_done_or_timeout:
  assumes "s = session lang pre" and "isConnected s" and "ws s"
    and "k = length (stops s)" and "s' = run as (stop s)"
  shows "wire (stop s) = wire s @ (if sock s = Some OPEN then [Sent Stop] else []) \<and>
         outcome (stops s' ! k) \<noteq> Rejected \<and>
         (outcome (stops s' ! k) = Resolved \<longleftrightarrow>
            Env (StopTimeout k) \<in> set as \<or>
            Received Done \<in> set (drop (length (wire s)) (wire s'))) \<and>
         (outcome (stops s' ! k) = Resolved \<longrightarrow> torn_down s' \<and> \<not> timer (stops s' ! k))"
proof -
  have i: "service_inv s" using assms(1) by (simp add: inv_session)
  have i': "service_inv s'" unfolding assms(5) using i by (intro inv_run inv_stop)
  note t = stop_trace[OF i assms(2,3), of as, folded assms(4,5)]
  have c: "call_ok (stops s' ! k)" using i' t by (intro nth_call_ok) simp_all
  have "torn_down s'" if "outcome (stops s' ! k) = Resolved"
    using i' t that by (intro inv_torn_down resolved_no_ws[where k=k]) simp_all
  then show ?thesis using t c stop_connected[OF i assms(2,3)]
    by (auto simp: call_ok_def ws_put_def)
qed

theorem stop_resolves_on_done_or_timeout_witness:
  "isConnected (session ''en'' [Env WsOpen, Env (WsMessage Ready)]) \<and>
   ws (session ''en'' [Env WsOpen, Env (WsMessage Ready)]) \<and>
   outcome (stops (run [CallSendAudio ''a'', Env (WsMessage Done)]
      (stop (session ''en'' [Env WsOpen, Env (WsMessage Ready)]))) ! 0) = Resolved \<and>
   torn_down (run [CallSendAudio ''a'', Env (WsMessage Done)]
      (stop (session ''en'' [Env WsOpen, Env (WsMessage Ready)]))) \<and>
   outcome (stops (run [Env (StopTimeout 0)]
      (stop (session ''en'' [Env WsOpen, Env (WsMessage Ready)]))) ! 0) = Resolved \<and>
   outcome (stops (run [Env (WsMessage (Transcript None))]
      (stop (session ''en'' [Env WsOpen, Env (WsMessage Ready)]))) ! 0) = Pending"
  using stop_resolves_on_done_or_timeout
    [of "session ''en'' [Env WsOpen, Env (WsMessage Ready)]" "''en''"
        "[Env WsOpen, Env (WsMessage Ready)]" 0
        "run [CallSendAudio ''a'', Env (WsMessage Done)]
           (stop (session ''en'' [Env WsOpen, Env (WsMessage Ready)]))"
        "[CallSendAudio ''a'', Env (WsMessage Done)]"]
  by (simp add: session_simps torn_down_def)

text \<open>
  C1, as the code has it. Through the IPC handlers no audio frame is written to
  the socket of a session before the \<^verbatim>\<open>ready\<close> frame of that session came in:
  \<^verbatim>\<open>transcription:send-audio\<close> reaches a service only once \<^verbatim>\<open>connect()\<close> has resolved to
  \<^verbatim>\<open>true\<close>. The method \<^verbatim>\<open>sendAudio\<close> itself looks at \<^verbatim>\<open>isConnected\<close> and \<^verbatim>\<open>this.ws\<close>
  only: when both are set and the socket is open it writes the audio frame, whether
  \<^verbatim>\<open>ready\<close> came or not, and when one of them is not set it drops the chunk with a
  warning.
\<close>

theorem audio_only_after_ready:
  "(\<forall>i < length (services (ipc_run es)).
      no_audio_before_ready (wire (services (ipc_run es) ! i))) \<and>
   (isConnected (session lang as) \<and> ws (session lang as) \<and>
    sock (session lang as) = Some OPEN \<longrightarrow>
      sendAudio d (session lang as) =
        Inr ((session lang as)\<lparr>wire := wire (session lang as) @ [Sent (Audio d)]\<rparr>)) \<and>
   (\<not> (isConnected (session lang as) \<and> ws (session lang as)) \<longrightarrow>
      sendAudio d (session lang as) =
        Inr ((session lang as)\<lparr>warnings := Suc (warnings (session lang as))\<rparr>))"
proof -
  have "no_audio_before_ready (wire (services (ipc_run es) ! i))"
    if "i < length (services (ipc_run es))" for i
    using main_inv_service[OF main_inv_run that] by (simp add: service_ok_def)
  then show ?thesis using sendAudio_session[OF inv_session, of d lang as] by simp
qed

theorem audio_only_after_ready_witness:
  "0 < length (services (ipc_run [TranscriptionStart ''en'', Socket 0 WsOpen,
      Socket 0 (WsMessage Ready), Resume 0, TranscriptionSendAudio ''chunk''])) \<and>
   wire (services (ipc_run [TranscriptionStart ''en'', Socket 0 WsOpen,
      Socket 0 (WsMessage Ready), Resume 0, TranscriptionSendAudio ''chunk'']) ! 0) =
     [Sent (Config ''en''), Received Ready, Sent (Audio ''chunk'')] \<and>
   no_audio_before_ready (wire (services (ipc_run [TranscriptionStart ''en'', Socket 0 WsOpen,
      Socket 0 (WsMessage Ready), Resume 0, TranscriptionSendAudio ''chunk'']) ! 0)) \<and>
   \<not> isConnected (session ''en'' []) \<and>
   sendAudio ''chunk'' (session ''en'' []) = Inr ((session ''en'' [])\<lparr>warnings := 1\<rparr>)"
  using audio_only_after_ready
    [of "[TranscriptionStart ''en'', Socket 0 WsOpen, Socket 0 (WsMessage Ready), Resume 0,
          TranscriptionSendAudio ''chunk'']" "''en''" "[]" "''chunk''"]
  by (simp add: session_simps ipc_simps)

text \<open>
  C1 as stated fails: a \<^verbatim>\<open>sendAudio\<close> after the socket opened and before \<^verbatim>\<open>ready\<close>
  writes the audio frame, and warns of nothing.
\<close>

theorem audio_before_ready_counterexample:
  "wire (session ''en'' [Env WsOpen, CallSendAudio ''chunk'']) =
     [Sent (Config ''en''), Sent (Audio ''chunk'')] \<and>
   \<not> no_audio_before_ready (wire (session ''en'' [Env WsOpen, CallSendAudio ''chunk''])) \<and>
   warnings (session ''en'' [Env WsOpen, CallSendAudio ''chunk'']) = 0"
  by (simp add: session_simps)

text \<open>
  C2, as the code has it. The 5 s timer of \<^verbatim>\<open>connect()\<close> acts only when
  \<^verbatim>\<open>isConnected\<close> is false. If, for a \<^verbatim>\<open>transcription:start\<close> that awaits \<^verbatim>\<open>connect()\<close>, no
  \<^verbatim>\<open>ready\<close> frame has come and \<^verbatim>\<open>isConnected\<close> is false when the timer fires, then from
  that moment on, whatever happens next (the \<^verbatim>\<open>error\<close> and \<^verbatim>\<open>close\<close> events that
  \<^verbatim>\<open>close()\<close> brings, other calls), \<^verbatim>\<open>connect()\<close> is settled to \<^verbatim>\<open>false\<close>; the handler is
  still suspended or has returned \<^verbatim>\<open>false\<close> with the session torn down; and when the
  handler goes on it returns \<^verbatim>\<open>false\<close> (it does not throw), the session is torn
  down and \<^verbatim>\<open>whisperService\<close> is null. When \<^verbatim>\<open>isConnected\<close> is true, the timer only
  expires.
\<close>

theorem start_false_on_timeout_before_open:
  assumes "m = ipc_run es" and "c < length (handlers m)"
    and "handlers m ! c = StartAwaitsConnect j"
    and "connectTimer (services m ! j)" and "\<not> isConnected (services m ! j)"
    and "Received Ready \<notin> set (wire (services m ! j))"
    and "m' = foldl ipc_step (ipc_step m (Socket j ConnectTimeout)) es'"
  shows "connectResult (services m' ! j) = Some False \<and>
         (handlers m' ! c = StartAwaitsConnect j \<or>
          handlers m' ! c = Returned (Some False) \<and> torn_down (services m' ! j)) \<and>
         handlers (ipc_step m' (Resume c)) ! c = Returned (Some False) \<and>
         torn_down (services (ipc_step m' (Resume c)) ! j) \<and>
         (handlers m' ! c = StartAwaitsConnect j \<longrightarrow>
            whisperService (ipc_step m' (Resume c)) = None) \<and>
         (\<forall>s. isConnected s \<longrightarrow>
            step ConnectTimeout s = (if connectTimer s then s\<lparr>connectTimer := False\<rparr> else s))"
proof -
  have i: "main_inv m" unfolding assms(1) by (rule main_inv_run)
  have j: "j < length (services m)" using main_inv_handler[OF i assms(2)] assms(3) by simp
  let ?m1 = "ipc_step m (Socket j ConnectTimeout)"
  have m1: "?m1 = m\<lparr>services := (services m)[j := step ConnectTimeout (services m ! j)]\<rparr>"
    using j by simp
  have i1: "main_inv ?m1" using i by (rule main_inv_step)
  have r: "connectResult (services ?m1 ! j) = Some False"
    unfolding m1 using j connect_timeout_result[OF main_inv_service[OF i j] assms(4,5,6)] by simp
  have h: "c < length (handlers ?m1)" "handlers ?m1 ! c = StartAwaitsConnect j"
      "j < length (services ?m1)"
    unfolding m1 using assms(2,3) j by simp_all
  have "connect_failed c j ?m1" using r h(2) by (simp add: connect_failed_def)
  note k = connect_failed_foldl[OF i1 h(1) h(3) this, of es', folded assms(7)]
  then have cf: "connect_failed c j m'" and i': "main_inv m'" and c': "c < length (handlers m')"
    and j': "j < length (services m')" by simp_all
  have "connect_failed c j (ipc_step m' (Resume c))"
    using i' c' j' cf by (rule connect_failed_step)
  moreover have "handlers (ipc_step m' (Resume c)) ! c = Returned (Some False) \<and>
      (handlers m' ! c = StartAwaitsConnect j \<longrightarrow> whisperService (ipc_step m' (Resume c)) = None)"
  proof (cases "handlers m' ! c = StartAwaitsConnect j")
    case True
    have "connectResult (services m' ! j) = Some False" using cf by (simp add: connect_failed_def)
    note f = resume_connect_failed[OF i' c' True this]
    then show ?thesis using c' True by simp
  next
    case False
    then show ?thesis using cf c' by (auto simp: connect_failed_def resume_def)
  qed
  moreover have "\<forall>s. isConnected s \<longrightarrow>
            step ConnectTimeout s = (if connectTimer s then s\<lparr>connectTimer := False\<rparr> else s)"
    by (simp add: connect_timeout_def)
  ultimately show ?thesis using cf by (auto simp: connect_failed_def)
qed

theorem start_false_on_timeout_before_open_witness:
  "handlers (ipc_run [TranscriptionStart ''en'']) ! 0 = StartAwaitsConnect 0 \<and>
   connectTimer (services (ipc_run [TranscriptionStart ''en'']) ! 0) \<and>
   \<not> isConnected (services (ipc_run [TranscriptionStart ''en'']) ! 0) \<and>
   wire (services (ipc_run [TranscriptionStart ''en'']) ! 0) = [] \<and>
   handlers (ipc_run [TranscriptionStart ''en'', Socket 0 ConnectTimeout,
      Socket 0 (WsError ''closed before the connection was established''), Socket 0 WsClose,
      Resume 0]) ! 0 = Returned (Some False) \<and>
   torn_down (services (ipc_run [TranscriptionStart ''en'', Socket 0 ConnectTimeout,
      Socket 0 (WsError ''closed before the connection was established''), Socket 0 WsClose,
      Resume 0]) ! 0) \<and>
   whisperService (ipc_run [TranscriptionStart ''en'', Socket 0 ConnectTimeout,
      Socket 0 (WsError ''closed before the connection was established''), Socket 0 WsClose,
      Resume 0]) = None"
  using start_false_on_timeout_before_open
    [of "ipc_run [TranscriptionStart ''en'']" "[TranscriptionStart ''en'']" 0 0
        "ipc_run [TranscriptionStart ''en'', Socket 0 ConnectTimeout,
           Socket 0 (WsError ''closed before the connection was established''), Socket 0 WsClose]"
        "[Socket 0 (WsError ''closed before the connection was established''), Socket 0 WsClose]"]
  by (simp add: session_simps ipc_simps torn_down_def)

text \<open>
  C2 as stated fails: when the socket opened and the server sends no \<^verbatim>\<open>ready\<close>, the
  timer does nothing. \<^verbatim>\<open>connect()\<close> stays pending, the handler stays suspended and the
  socket stays open.
\<close>

theorem start_pending_after_open_counterexample:
  "handlers (ipc_run [TranscriptionStart ''en'', Socket 0 WsOpen, Socket 0 ConnectTimeout,
      Resume 0]) = [StartAwaitsConnect 0] \<and>
   connectResult (services (ipc_run [TranscriptionStart ''en'', Socket 0 WsOpen,
      Socket 0 ConnectTimeout, Resume 0]) ! 0) = None \<and>
   sock (services (ipc_run [TranscriptionStart ''en'', Socket 0 WsOpen,
      Socket 0 ConnectTimeout, Resume 0]) ! 0) = Some OPEN \<and>
   connectTimer (services (ipc_run [TranscriptionStart ''en'', Socket 0 WsOpen,
      Socket 0 ConnectTimeout, Resume 0]) ! 0) = False \<and>
   wire (services (ipc_run [TranscriptionStart ''en'', Socket 0 WsOpen,
      Socket 0 ConnectTimeout, Resume 0]) ! 0) = [Sent (Config ''en'')]"
  by (simp add: session_simps ipc_simps)

text \<open>
  C6, as the code has it. When \<^verbatim>\<open>transcription:start\<close> has returned \<^verbatim>\<open>false\<close>,
  \<^verbatim>\<open>whisperService\<close> is null, and \<^verbatim>\<open>transcription:send-audio\<close> throws
  \<^verbatim>\<open>Transcription not started\<close> and touches no service. The method \<^verbatim>\<open>sendAudio\<close> of
  the service that failed, whatever happened to that service in between, does not
  throw: it warns and writes nothing.
\<close>

theorem send_audio_after_failed_start:
  assumes "m = ipc_run es" and "c < length (handlers m)"
    and "handlers m ! c = StartAwaitsConnect j"
    and "connectResult (services m ! j) = Some False"
    and "m' = ipc_step m (Resume c)"
  shows "handlers m' ! c = Returned (Some False) \<and> whisperService m' = None \<and>
         transcription_send_audio d m' =
           m'\<lparr>handlers := handlers m' @ [Threw TranscriptionNotStarted]\<rparr> \<and>
         sendAudio d (run as (services m' ! j)) =
           Inr ((run as (services m' ! j))\<lparr>warnings := Suc (warnings (run as (services m' ! j)))\<rparr>)"
proof -
  have i: "main_inv m" unfolding assms(1) by (rule main_inv_run)
  note f = resume_connect_failed[OF i assms(2,3,4)]
  have m': "m' = resume c m" using assms(5,2) by simp
  have "\<not> ws (services m' ! j)" using f unfolding m' by (simp add: torn_down_def)
  then have "\<not> ws (run as (services m' ! j))" by (rule ws_run)
  then show ?thesis using f assms(2) unfolding m'
    by (simp add: transcription_send_audio_def sendAudio_def)
qed

theorem send_audio_after_failed_start_witness:
  "handlers (ipc_run [TranscriptionStart ''en'', Socket 0 (WsError ''ECONNREFUSED'')]) ! 0 =
     StartAwaitsConnect 0 \<and>
   connectResult (services (ipc_run [TranscriptionStart ''en'',
      Socket 0 (WsError ''ECONNREFUSED'')]) ! 0) = Some False \<and>
   handlers (ipc_run [TranscriptionStart ''en'', Socket 0 (WsError ''ECONNREFUSED''), Resume 0]) =
     [Returned (Some False)] \<and>
   handlers (transcription_send_audio ''chunk'' (ipc_run [TranscriptionStart ''en'',
      Socket 0 (WsError ''ECONNREFUSED''), Resume 0])) =
     [Returned (Some False), Threw TranscriptionNotStarted] \<and>
   warnings (projr (sendAudio ''chunk'' (services (ipc_run [TranscriptionStart ''en'',
      Socket 0 (WsError ''ECONNREFUSED''), Resume 0]) ! 0))) = 1"
  using send_audio_after_failed_start
    [of "ipc_run [TranscriptionStart ''en'', Socket 0 (WsError ''ECONNREFUSED'')]"
        "[TranscriptionStart ''en'', Socket 0 (WsError ''ECONNREFUSED'')]" 0 0
        "ipc_run [TranscriptionStart ''en'', Socket 0 (WsError ''ECONNREFUSED''), Resume 0]"
        "''chunk''" "[]"]
  by (simp add: session_simps ipc_simps)

text \<open>
  C6 as stated fails: after a start that returned \<^verbatim>\<open>false\<close>, the handler
  \<^verbatim>\<open>transcription:send-audio\<close> throws to its caller.
\<close>

theorem send_audio_throws_counterexample:
  "handlers (ipc_run [TranscriptionStart ''en'', Socket 0 (WsError ''ECONNREFUSED''), Resume 0,
      TranscriptionSendAudio ''chunk'']) = [Returned (Some False), Threw TranscriptionNotStarted]"
  by (simp add: session_simps ipc_simps)

text \<open>
  What \<^verbatim>\<open>transcription:start\<close> does when a session is registered in
  \<^verbatim>\<open>whisperService\<close>: at every later moment that call either still awaits the
  \<^verbatim>\<open>stop()\<close> of that session, or the session is torn down and the call awaits the
  \<^verbatim>\<open>connect()\<close> of a service built after the call came in, or has returned. It never
  throws.
\<close>

theorem start_tears_down_registered_session:
  assumes "m = ipc_run es" and "whisperService m = Some i"
    and "m' = foldl ipc_step (ipc_step m (TranscriptionStart lang)) es'"
  shows "case handlers m' ! length (handlers m) of
           StartAwaitsStop i' k l \<Rightarrow> i' = i \<and> l = lang
         | StartAwaitsConnect j \<Rightarrow> length (services m) \<le> j \<and> torn_down (services m' ! i)
         | StopAwaitsStop i' k \<Rightarrow> False
         | Returned r \<Rightarrow> r \<noteq> None \<and> torn_down (services m' ! i)
         | Threw e \<Rightarrow> False"
proof -
  have inv: "main_inv m" unfolding assms(1) by (rule main_inv_run)
  note cur = main_inv_current[OF inv assms(2)]
  let ?m1 = "ipc_step m (TranscriptionStart lang)"
  have m1: "?m1 = m\<lparr>services := (services m)[i := stop (services m ! i)],
            handlers := handlers m @ [StartAwaitsStop i (length (stops (services m ! i))) lang]\<rparr>"
    using assms(2) by (simp add: transcription_start_def)
  have i1: "main_inv ?m1" using inv by (rule main_inv_step)
  have "start_progress (length (handlers m)) i lang (length (services m)) (foldl ipc_step ?m1 es')"
    using i1 unfolding m1
    by (rule start_progress_foldl) (use cur in \<open>simp_all add: start_progress_def\<close>)
  then show ?thesis unfolding assms(3) start_progress_def .
qed

theorem start_tears_down_registered_session_witness:
  "whisperService (ipc_run [TranscriptionStart ''en'', Socket 0 WsOpen,
      Socket 0 (WsMessage Ready), Resume 0]) = Some 0 \<and>
   handlers (ipc_run [TranscriptionStart ''en'', Socket 0 WsOpen, Socket 0 (WsMessage Ready),
      Resume 0, TranscriptionStart ''fr'', Socket 0 (WsMessage Done), Resume 1]) ! 1 =
     StartAwaitsConnect 1 \<and>
   torn_down (services (ipc_run [TranscriptionStart ''en'', Socket 0 WsOpen,
      Socket 0 (WsMessage Ready), Resume 0, TranscriptionStart ''fr'',
      Socket 0 (WsMessage Done), Resume 1]) ! 0)"
  using start_tears_down_registered_session
    [of "ipc_run [TranscriptionStart ''en'', Socket 0 WsOpen, Socket 0 (WsMessage Ready), Resume 0]"
        "[TranscriptionStart ''en'', Socket 0 WsOpen, Socket 0 (WsMessage Ready), Resume 0]" 0
        "ipc_run [TranscriptionStart ''en'', Socket 0 WsOpen, Socket 0 (WsMessage Ready), Resume 0,
           TranscriptionStart ''fr'', Socket 0 (WsMessage Done), Resume 1]"
        "''fr''" "[Socket 0 (WsMessage Done), Resume 1]"]
  by (simp add: session_simps ipc_simps torn_down_def)

text \<open>
  C7. The code breaks the claim when two calls of \<^verbatim>\<open>transcription:start\<close> overlap. A
  session is registered in \<^verbatim>\<open>whisperService\<close> only when its \<^verbatim>\<open>connect()\<close> has resolved,
  so a start that arrives while another start still awaits \<^verbatim>\<open>connect()\<close> finds nothing
  to tear down. Both sessions connect, \<^verbatim>\<open>stop()\<close> is called on neither, both starts
  return \<^verbatim>\<open>true\<close>, and the first session is still connected when the second is the
  current one. In the same window a start that fails clears \<^verbatim>\<open>whisperService\<close> while
  the session of the other start is registered and connected.
\<close>

theorem overlapping_starts_leave_two_sessions:
  "map (\<lambda>s. (ws s, isConnected s, sock s))
     (services (ipc_run [TranscriptionStart ''en'', Socket 0 WsOpen, TranscriptionStart ''en'',
        Socket 1 WsOpen, Socket 0 (WsMessage Ready), Resume 0, Socket 1 (WsMessage Ready),
        Resume 1])) =
     [(True, True, Some OPEN), (True, True, Some OPEN)] \<and>
   map stops
     (services (ipc_run [TranscriptionStart ''en'', Socket 0 WsOpen, TranscriptionStart ''en'',
        Socket 1 WsOpen, Socket 0 (WsMessage Ready), Resume 0, Socket 1 (WsMessage Ready),
        Resume 1])) = [[], []] \<and>
   whisperService (ipc_run [TranscriptionStart ''en'', Socket 0 WsOpen, TranscriptionStart ''en'',
        Socket 1 WsOpen, Socket 0 (WsMessage Ready), Resume 0, Socket 1 (WsMessage Ready),
        Resume 1]) = Some 1 \<and>
   handlers (ipc_run [TranscriptionStart ''en'', Socket 0 WsOpen, TranscriptionStart ''en'',
        Socket 1 WsOpen, Socket 0 (WsMessage Ready), Resume 0, Socket 1 (WsMessage Ready),
        Resume 1]) =
     [Returned (Some True), Returned (Some True)] \<and>
   map (\<lambda>s. (ws s, isConnected s, sock s))
     (services (ipc_run [TranscriptionStart ''en'', TranscriptionStart ''en'', Socket 1 WsOpen,
        Socket 1 (WsMessage Ready), Resume 1, Socket 0 (WsError ''ECONNRESET''), Resume 0])) =
     [(False, False, Some CLOSING), (True, True, Some OPEN)] \<and>
   whisperService (ipc_run [TranscriptionStart ''en'', TranscriptionStart ''en'', Socket 1 WsOpen,
        Socket 1 (WsMessage Ready), Resume 1, Socket 0 (WsError ''ECONNRESET''), Resume 0]) = None"
  by (simp add: session_simps ipc_simps)

end
